theory Spec2Isabelle
  imports Main "HOL-Library.Monad_Syntax"
begin

section \<open>The snowfall animation of Snow.py\<close>

text \<open>
  Snow.py is one module: three parallel lists (\<open>snow_list\<close>, \<open>size_list\<close>,
  \<open>color_list\<close>), three timer globals, the procedure \<open>letItSnow\<close> and the main loop.
  The embedding passes the module's globals as a record. The three collaborators of the
  program are inputs of the model:
  \<^item> \<open>random\<close>: a source of raw draws \<open>rng_src\<close>, read at the cursor \<open>rng_pos\<close>;
    \<open>randrange lo hi\<close> maps the next raw draw into \<open>lo, ..., hi - 1\<close>. Only the range of a
    draw is modelled, not its distribution.
  \<^item> \<open>pygame.time.get_ticks\<close>: the reading of the clock is an argument of each frame.
  \<^item> \<open>pygame.event.get\<close>: whether a QUIT event is among the polled events is an
    argument of each frame.
  A Python exception (\<open>IndexError\<close> of a list read, \<open>ValueError\<close> of an empty
  \<open>randrange\<close>) is the result \<open>None\<close>.
\<close>

subsection \<open>Constants and globals\<close>

definition width :: int where
  "width = 700"

definition height :: int where
  "height = 500"

definition flakes_amount :: nat where
  "flakes_amount = 200"

type_synonym point = "int \<times> int"

type_synonym colour = "int \<times> int \<times> int"

type_synonym circle = "colour \<times> point \<times> int"

record rng =
  rng_src :: "nat \<Rightarrow> nat"
  rng_pos :: nat

record state =
  snow_list :: "point list"
  size_list :: "int list"
  color_list :: "colour list"
  snow_half :: nat
  time_passed :: int
  time_since :: int
  num_changed :: int
  done_flag :: bool
  screen :: "circle list"
  rand :: rng

subsection \<open>The random module\<close>

text \<open>\<open>random.randrange(lo, hi)\<close>: a value of \<open>lo, ..., hi - 1\<close>; an empty range raises.\<close>

definition randrange :: "int \<Rightarrow> int \<Rightarrow> rng \<Rightarrow> (int \<times> rng) option" where
  "randrange lo hi g =
     (if lo < hi
      then Some (lo + int (rng_src g (rng_pos g) mod nat (hi - lo)),
                 g\<lparr>rng_pos := rng_pos g + 1\<rparr>)
      else None)"

text \<open>\<open>random.randint(a, b)\<close> is \<open>randrange(a, b + 1)\<close>: both ends are included.\<close>

definition randint :: "int \<Rightarrow> int \<Rightarrow> rng \<Rightarrow> (int \<times> rng) option" where
  "randint a b g = randrange a (b + 1) g"

text \<open>A list read \<open>xs[i]\<close> at an index \<open>i \<ge> 0\<close>.\<close>

definition get_item :: "'a list \<Rightarrow> nat \<Rightarrow> 'a option" where
  "get_item xs i = (if i < length xs then Some (xs ! i) else None)"

subsection \<open>Start-up: lines 22 to 52\<close>

definition createColour :: "nat \<Rightarrow> state \<Rightarrow> state option" where
  "createColour loc st = do {
     (handle, g) \<leftarrow> randint 30 255 (rand st);
     Some (st\<lparr>color_list := color_list st @ [(handle, handle, handle)], rand := g\<rparr>)
   }"

definition init_one :: "nat \<Rightarrow> state \<Rightarrow> state option" where
  "init_one snowCount st = do {
     (sz, g1) \<leftarrow> randint 2 4 (rand st);
     let st1 = st\<lparr>size_list := size_list st @ [sz], rand := g1\<rparr>;
     (x, g2) \<leftarrow> randint 0 width (rand st1);
     (y, g3) \<leftarrow> randint 0 height g2;
     let st2 = st1\<lparr>snow_list := snow_list st1 @ [(x, y)], rand := g3\<rparr>;
     createColour snowCount st2
   }"

fun init_loop :: "nat list \<Rightarrow> state \<Rightarrow> state option" where
  "init_loop [] st = Some st"
| "init_loop (snowCount # rest) st = do {
     st' \<leftarrow> init_one snowCount st;
     init_loop rest st'
   }"

text \<open>
  The globals of lines 24 to 38 before the loop of line 44. Line 52 then sets
  \<open>snow_half\<close> to \<open>int(len(snow_list)/2)\<close>, the length halved and rounded down.
\<close>

definition globals0 :: "(nat \<Rightarrow> nat) \<Rightarrow> state" where
  "globals0 raw =
     \<lparr>snow_list = [], size_list = [], color_list = [], snow_half = 0,
      time_passed = 0, time_since = 0, num_changed = 0, done_flag = False,
      screen = [], rand = \<lparr>rng_src = raw, rng_pos = 0\<rparr>\<rparr>"

definition init_state :: "(nat \<Rightarrow> nat) \<Rightarrow> state option" where
  "init_state raw = do {
     st \<leftarrow> init_loop [0..<flakes_amount] (globals0 raw);
     Some (st\<lparr>snow_half := length (snow_list st) div 2\<rparr>)
   }"

subsection \<open>letItSnow: lines 55 to 88\<close>

text \<open>The guard of line 61.\<close>

definition override_due :: "state \<Rightarrow> bool" where
  "override_due st \<longleftrightarrow> time_since st > 10000 + 10000 * num_changed st"

text \<open>Lines 72 and 73.\<close>

definition drift :: "int \<Rightarrow> int \<Rightarrow> point \<Rightarrow> point" where
  "drift x_wind y_wind p = (fst p + x_wind, snd p + y_wind)"

text \<open>Lines 78 to 82: \<open>y\<close> is drawn first, then \<open>x\<close>.\<close>

definition recycle_vertical :: "point \<Rightarrow> rng \<Rightarrow> (point \<times> rng) option" where
  "recycle_vertical p g =
     (if snd p > height + 3
      then do {
        (y, g1) \<leftarrow> randrange (- 50) (- 10) g;
        (x, g2) \<leftarrow> randrange 0 (width - 50) g1;
        Some ((x, y), g2)
      }
      else Some (p, g))"

text \<open>Lines 84 to 88: again \<open>y\<close> is drawn first, then \<open>x\<close>.\<close>

definition recycle_horizontal :: "point \<Rightarrow> rng \<Rightarrow> (point \<times> rng) option" where
  "recycle_horizontal p g =
     (if fst p > width + 3
      then do {
        (y, g1) \<leftarrow> randrange 0 (height - 50) g;
        (x, g2) \<leftarrow> randrange (- 50) (- 10) g1;
        Some ((x, y), g2)
      }
      else Some (p, g))"

text \<open>Lines 75 to 88: the two checks, one after the other, neither an \<open>else\<close> of the other.\<close>

definition recycle :: "point \<Rightarrow> rng \<Rightarrow> (point \<times> rng) option" where
  "recycle p g = do {
     (p', g') \<leftarrow> recycle_vertical p g;
     recycle_horizontal p' g'
   }"

text \<open>
  One pass of the loop body for the index \<open>snows\<close>. The local \<open>x_wind\<close> is assigned in
  the body, so the body returns it with the globals. The element \<open>snow_list[snows]\<close> is
  read once, updated by lines 72 to 88 and written back.
\<close>

definition snow_one :: "nat \<Rightarrow> int \<Rightarrow> int \<Rightarrow> state \<Rightarrow> (int \<times> state) option" where
  "snow_one snows x_wind y_wind st = do {
     c \<leftarrow> get_item (color_list st) snows;
     p \<leftarrow> get_item (snow_list st) snows;
     r \<leftarrow> get_item (size_list st) snows;
     let st1 = st\<lparr>screen := screen st @ [(c, p, r)]\<rparr>;
     let x_wind' = (if override_due st1 then 100 else x_wind);
     let p1 = drift x_wind' y_wind p;
     (p2, g2) \<leftarrow> recycle p1 (rand st1);
     Some (x_wind', st1\<lparr>snow_list := (snow_list st1)[snows := p2], rand := g2\<rparr>)
   }"

fun letItSnow_loop :: "nat list \<Rightarrow> int \<Rightarrow> int \<Rightarrow> state \<Rightarrow> (int \<times> state) option" where
  "letItSnow_loop [] x_wind y_wind st = Some (x_wind, st)"
| "letItSnow_loop (snows # rest) x_wind y_wind st = do {
     (x_wind', st') \<leftarrow> snow_one snows x_wind y_wind st;
     letItSnow_loop rest x_wind' y_wind st'
   }"

definition letItSnow :: "nat \<Rightarrow> nat \<Rightarrow> int \<Rightarrow> int \<Rightarrow> state \<Rightarrow> state option" where
  "letItSnow firstSnow lastSnow x_wind y_wind st =
     map_option snd (letItSnow_loop [firstSnow..<lastSnow] x_wind y_wind st)"

subsection \<open>The main loop: lines 91 to 118\<close>

text \<open>Lines 93 to 95, with \<open>quit\<close> telling whether a QUIT event was polled.\<close>

definition poll_events :: "bool \<Rightarrow> state \<Rightarrow> state" where
  "poll_events quit st = (if quit then st\<lparr>done_flag := True\<rparr> else st)"

text \<open>Line 98.\<close>

definition fill_screen :: "state \<Rightarrow> state" where
  "fill_screen st = st\<lparr>screen := []\<rparr>"

text \<open>Lines 101 to 104, with \<open>ticks\<close> the value of \<open>pygame.time.get_ticks()\<close>.\<close>

definition tick_timer :: "int \<Rightarrow> state \<Rightarrow> state" where
  "tick_timer ticks st =
     (let st1 = st\<lparr>time_passed := ticks\<rparr>
      in if time_passed st1 - time_since st1 \<ge> 10000
         then st1\<lparr>time_since := time_since st1 + 10000,
                  num_changed := num_changed st1 + 1\<rparr>
         else st1)"

text \<open>Lines 111 and 112.\<close>

definition snow_ranges :: "state \<Rightarrow> state option" where
  "snow_ranges st = do {
     st1 \<leftarrow> letItSnow 0 (snow_half st) 1 2 st;
     letItSnow (snow_half st1) (length (snow_list st1)) 4 4 st1
   }"

text \<open>
  One pass of the loop body, lines 93 to 118. The three \<open>print\<close> calls, \<open>display.flip\<close> and
  \<open>clock.tick\<close> change none of the globals and are left out.
\<close>

definition frame :: "bool \<Rightarrow> int \<Rightarrow> state \<Rightarrow> state option" where
  "frame quit ticks st = snow_ranges (tick_timer ticks (fill_screen (poll_events quit st)))"

text \<open>
  The loop \<open>while done==False\<close> over the inputs of the first frames: the state after
  them, or the state at which the loop was left.
\<close>

fun run :: "(bool \<times> int) list \<Rightarrow> state \<Rightarrow> state option" where
  "run [] st = Some st"
| "run ((quit, ticks) # rest) st =
     (if done_flag st then Some st
      else do { st' \<leftarrow> frame quit ticks st; run rest st' })"

text \<open>The module from its first line: start-up, then the loop.\<close>

definition program :: "(nat \<Rightarrow> nat) \<Rightarrow> (bool \<times> int) list \<Rightarrow> state option" where
  "program raw inputs = do { st \<leftarrow> init_state raw; run inputs st }"

subsection \<open>Notions for stating the properties\<close>

text \<open>The three lists have one length, so that no read of \<open>letItSnow\<close> raises.\<close>

definition aligned :: "state \<Rightarrow> bool" where
  "aligned st \<longleftrightarrow>
     length (size_list st) = length (snow_list st) \<and>
     length (color_list st) = length (snow_list st)"

text \<open>
  What \<open>letItSnow\<close> leaves alone: everything but the positions, the drawn circles and the
  cursor of the random source.
\<close>

definition kept :: "state \<Rightarrow> state \<Rightarrow> bool" where
  "kept st st' \<longleftrightarrow>
     size_list st' = size_list st \<and> color_list st' = color_list st \<and>
     snow_half st' = snow_half st \<and> time_passed st' = time_passed st \<and>
     time_since st' = time_since st \<and> num_changed st' = num_changed st \<and>
     done_flag st' = done_flag st \<and> length (snow_list st') = length (snow_list st) \<and>
     rng_src (rand st') = rng_src (rand st)"

text \<open>The globals of a frame after lines 93 to 104, when \<open>letItSnow\<close> is called.\<close>

definition prepared :: "bool \<Rightarrow> int \<Rightarrow> state \<Rightarrow> state" where
  "prepared quit ticks st = tick_timer ticks (fill_screen (poll_events quit st))"

text \<open>
  The radius, start position and colour that start-up gives the \<open>k\<close>-th particle made
  from the cursor \<open>p\<close> on: four draws a particle, in the order radius, \<open>x\<close>, \<open>y\<close>, colour
  (\<open>init_loop_eq\<close> below).
\<close>

definition flake_size :: "(nat \<Rightarrow> nat) \<Rightarrow> nat \<Rightarrow> nat \<Rightarrow> int" where
  "flake_size raw p k = 2 + int (raw (p + 4 * k) mod 3)"

definition flake_point :: "(nat \<Rightarrow> nat) \<Rightarrow> nat \<Rightarrow> nat \<Rightarrow> point" where
  "flake_point raw p k =
     (int (raw (p + 4 * k + 1) mod 701), int (raw (p + 4 * k + 2) mod 501))"

definition flake_colour :: "(nat \<Rightarrow> nat) \<Rightarrow> nat \<Rightarrow> nat \<Rightarrow> colour" where
  "flake_colour raw p k =
     (let handle = 30 + int (raw (p + 4 * k + 3) mod 226) in (handle, handle, handle))"

text \<open>The invariant of the runs.\<close>

definition well_formed :: "state \<Rightarrow> bool" where
  "well_formed st \<longleftrightarrow>
     aligned st \<and> length (snow_list st) = flakes_amount \<and>
     snow_half st = flakes_amount div 2 \<and>
     time_since st = 10000 * num_changed st"

text \<open>Two random sources for concrete runs: every raw draw \<open>v\<close>; draw \<open>k\<close> is \<open>v\<close>, the others \<open>w\<close>.\<close>

definition const_raw :: "nat \<Rightarrow> nat \<Rightarrow> nat" where
  "const_raw v k = v"

definition pick_raw :: "nat \<Rightarrow> nat \<Rightarrow> nat \<Rightarrow> nat \<Rightarrow> nat" where
  "pick_raw k v w j = (if j = k then v else w)"

text \<open>The source whose draws for the \<open>i\<close>-th particle at start-up are \<open>r\<close>, \<open>x\<close>, \<open>y\<close>, \<open>h\<close>.\<close>

definition flake_raw :: "nat \<Rightarrow> nat \<Rightarrow> nat \<Rightarrow> nat \<Rightarrow> nat \<Rightarrow> nat \<Rightarrow> nat" where
  "flake_raw i r x y h j =
     (if j = 4 * i then r else if j = 4 * i + 1 then x else if j = 4 * i + 2 then y else h)"

text \<open>The read \<open>snow_list[i]\<close> of a state, to observe a run.\<close>

definition position_of :: "nat \<Rightarrow> state \<Rightarrow> point option" where
  "position_of i st = get_item (snow_list st) i"

section \<open>Properties of the embedding\<close>

subsection \<open>Draws and the recycling checks\<close>

lemma randrange_Some:
  "lo < hi \<Longrightarrow> randrange lo hi g =
     Some (lo + int (rng_src g (rng_pos g) mod nat (hi - lo)), g\<lparr>rng_pos := rng_pos g + 1\<rparr>)"
  by (simp add: randrange_def)

lemma randrange_bounds:
  assumes "randrange lo hi g = Some (v, g')"
  shows "lo \<le> v \<and> v < hi \<and> rng_src g' = rng_src g \<and> rng_pos g' = rng_pos g + 1"
proof -
  from assms have lt: "lo < hi" and v: "v = lo + int (rng_src g (rng_pos g) mod nat (hi - lo))"
    and g': "g' = g\<lparr>rng_pos := rng_pos g + 1\<rparr>"
    by (auto simp: randrange_def split: if_splits)
  have "rng_src g (rng_pos g) mod nat (hi - lo) < nat (hi - lo)"
    using lt by simp
  then have "int (rng_src g (rng_pos g) mod nat (hi - lo)) < hi - lo"
    using lt by linarith
  then show ?thesis using v g' by simp
qed

lemma recycle_vertical_fire:
  assumes "snd p > height + 3"
  shows "recycle_vertical p g =
     Some ((int (rng_src g (rng_pos g + 1) mod 650), - 50 + int (rng_src g (rng_pos g) mod 40)),
           g\<lparr>rng_pos := rng_pos g + 2\<rparr>)"
  using assms by (simp add: recycle_vertical_def randrange_def width_def)

lemma recycle_vertical_skip:
  "\<not> snd p > height + 3 \<Longrightarrow> recycle_vertical p g = Some (p, g)"
  by (simp add: recycle_vertical_def)

lemma recycle_horizontal_fire:
  assumes "fst p > width + 3"
  shows "recycle_horizontal p g =
     Some ((- 50 + int (rng_src g (rng_pos g + 1) mod 40), int (rng_src g (rng_pos g) mod 450)),
           g\<lparr>rng_pos := rng_pos g + 2\<rparr>)"
  using assms by (simp add: recycle_horizontal_def randrange_def height_def)

lemma recycle_horizontal_skip:
  "\<not> fst p > width + 3 \<Longrightarrow> recycle_horizontal p g = Some (p, g)"
  by (simp add: recycle_horizontal_def)

lemma recycle_total:
  "\<exists>p' g'. recycle p g = Some (p', g') \<and> rng_src g' = rng_src g \<and> rng_pos g \<le> rng_pos g'"
proof (cases "snd p > height + 3")
  case True
  then show ?thesis
    by (simp add: recycle_def recycle_vertical_fire recycle_horizontal_skip width_def)
next
  case v: False
  show ?thesis
  proof (cases "fst p > width + 3")
    case True
    then show ?thesis using v
      by (simp add: recycle_def recycle_vertical_skip recycle_horizontal_fire)
  next
    case False
    then show ?thesis using v
      by (simp add: recycle_def recycle_vertical_skip recycle_horizontal_skip)
  qed
qed

subsection \<open>letItSnow and the frame\<close>

lemma kept_refl: "kept st st"
  by (simp add: kept_def)

lemma kept_trans: "kept a b \<Longrightarrow> kept b c \<Longrightarrow> kept a c"
  by (simp add: kept_def)

lemma kept_override: "kept st st' \<Longrightarrow> override_due st' = override_due st"
  by (simp add: kept_def override_due_def)

lemma kept_aligned: "kept st st' \<Longrightarrow> aligned st \<Longrightarrow> aligned st'"
  by (simp add: kept_def aligned_def)

lemma snow_one_effect:
  assumes i: "i < length (snow_list st)" and al: "aligned st"
  shows "\<exists>p' g g' st'.
     snow_one i xw yw st = Some (if override_due st then 100 else xw, st') \<and>
     kept st st' \<and>
     rng_src g = rng_src (rand st) \<and>
     recycle (drift (if override_due st then 100 else xw) yw (snow_list st ! i)) g = Some (p', g') \<and>
     snow_list st' = (snow_list st)[i := p']"
proof -
  let ?w = "if override_due st then 100 else xw"
  obtain p' g' where r: "recycle (drift ?w yw (snow_list st ! i)) (rand st) = Some (p', g')"
    and s: "rng_src g' = rng_src (rand st)"
    using recycle_total by blast
  have o: "override_due (st\<lparr>screen := sc\<rparr>) = override_due st" for sc
    by (simp add: override_due_def)
  let ?st' = "st\<lparr>screen := screen st @ [(color_list st ! i, snow_list st ! i, size_list st ! i)],
                 snow_list := (snow_list st)[i := p'], rand := g'\<rparr>"
  have "snow_one i xw yw st = Some (?w, ?st')"
    using i al r by (simp add: snow_one_def get_item_def aligned_def Let_def o)
  moreover have "kept st ?st'"
    using s by (simp add: kept_def)
  moreover have "snow_list ?st' = (snow_list st)[i := p']"
    by simp
  ultimately show ?thesis using r by blast
qed

lemma letItSnow_loop_effect:
  assumes "\<forall>i\<in>set js. i < length (snow_list st)" and "distinct js" and "aligned st"
  shows "\<exists>st'.
     letItSnow_loop js xw yw st = Some (if override_due st \<and> js \<noteq> [] then 100 else xw, st') \<and>
     kept st st' \<and>
     (\<forall>j. j \<notin> set js \<longrightarrow> snow_list st' ! j = snow_list st ! j) \<and>
     (\<forall>i\<in>set js. \<exists>g g'. rng_src g = rng_src (rand st) \<and>
        recycle (drift (if override_due st then 100 else xw) yw (snow_list st ! i)) g
          = Some (snow_list st' ! i, g'))"
  using assms
proof (induction js arbitrary: xw st)
  case Nil
  then show ?case by (simp add: kept_refl)
next
  case (Cons i js)
  let ?w = "if override_due st then 100 else xw"
  from Cons.prems have i: "i < length (snow_list st)" and notin: "i \<notin> set js"
    and dist: "distinct js" and al: "aligned st"
    and rest: "\<forall>j\<in>set js. j < length (snow_list st)"
    by simp_all
  from snow_one_effect [OF i al, of xw yw]
  obtain p' g g' st1 where
    one: "snow_one i xw yw st = Some (?w, st1)" and k1: "kept st st1"
    and src: "rng_src g = rng_src (rand st)"
    and rec: "recycle (drift ?w yw (snow_list st ! i)) g = Some (p', g')"
    and sl: "snow_list st1 = (snow_list st)[i := p']"
    by blast
  have o1: "override_due st1 = override_due st"
    using k1 by (rule kept_override)
  have al1: "aligned st1"
    using k1 al by (rule kept_aligned)
  have rest1: "\<forall>j\<in>set js. j < length (snow_list st1)"
    using rest sl by simp
  from Cons.IH [OF rest1 dist al1, of ?w]
  obtain st' where
    loop: "letItSnow_loop js ?w yw st1 =
             Some (if override_due st1 \<and> js \<noteq> [] then 100 else ?w, st')"
    and k2: "kept st1 st'"
    and out: "\<forall>j. j \<notin> set js \<longrightarrow> snow_list st' ! j = snow_list st1 ! j"
    and inn: "\<forall>j\<in>set js. \<exists>g g'. rng_src g = rng_src (rand st1) \<and>
        recycle (drift (if override_due st1 then 100 else ?w) yw (snow_list st1 ! j)) g
          = Some (snow_list st' ! j, g')"
    by blast
  have res: "letItSnow_loop (i # js) xw yw st =
      Some (if override_due st \<and> i # js \<noteq> [] then 100 else xw, st')"
    using one loop o1 by simp
  have k: "kept st st'"
    using k1 k2 by (rule kept_trans)
  have srcs: "rng_src (rand st1) = rng_src (rand st)"
    using k1 by (simp add: kept_def)
  have outside: "\<forall>j. j \<notin> set (i # js) \<longrightarrow> snow_list st' ! j = snow_list st ! j"
    using out sl by simp
  have head: "snow_list st' ! i = p'"
    using out notin sl i by simp
  have inside: "\<exists>g g'. rng_src g = rng_src (rand st) \<and>
        recycle (drift ?w yw (snow_list st ! j)) g = Some (snow_list st' ! j, g')"
    if j: "j \<in> set (i # js)" for j
  proof (cases "j = i")
    case True
    then show ?thesis using src rec head by blast
  next
    case False
    with j have jj: "j \<in> set js" by simp
    have same: "snow_list st1 ! j = snow_list st ! j"
      using False sl by simp
    from inn jj obtain h h' where "rng_src h = rng_src (rand st1)"
      and "recycle (drift (if override_due st1 then 100 else ?w) yw (snow_list st1 ! j)) h
          = Some (snow_list st' ! j, h')"
      by blast
    then show ?thesis using srcs same o1 by (cases "override_due st") auto
  qed
  show ?case using res k outside inside by blast
qed

lemma letItSnow_effect:
  assumes "b \<le> length (snow_list st)" and "aligned st"
  shows "\<exists>st'.
     letItSnow a b xw yw st = Some st' \<and> kept st st' \<and>
     (\<forall>j. \<not> (a \<le> j \<and> j < b) \<longrightarrow> snow_list st' ! j = snow_list st ! j) \<and>
     (\<forall>i. a \<le> i \<and> i < b \<longrightarrow> (\<exists>g g'. rng_src g = rng_src (rand st) \<and>
        recycle (drift (if override_due st then 100 else xw) yw (snow_list st ! i)) g
          = Some (snow_list st' ! i, g')))"
proof -
  have "\<forall>i\<in>set [a..<b]. i < length (snow_list st)"
    using assms(1) by simp
  from letItSnow_loop_effect [OF this distinct_upt assms(2), of xw yw]
  show ?thesis
    by (auto simp: letItSnow_def)
qed

lemma snow_ranges_effect:
  assumes al: "aligned st" and half: "snow_half st \<le> length (snow_list st)"
  shows "\<exists>st'.
     snow_ranges st = Some st' \<and> kept st st' \<and>
     (\<forall>i. i < length (snow_list st) \<longrightarrow> (\<exists>g g'. rng_src g = rng_src (rand st) \<and>
        recycle (drift (if override_due st then 100 else if i < snow_half st then 1 else 4)
                       (if i < snow_half st then 2 else 4) (snow_list st ! i)) g
          = Some (snow_list st' ! i, g')))"
proof -
  let ?w = "\<lambda>xw. if override_due st then 100 else xw"
  let ?h = "snow_half st" and ?n = "length (snow_list st)"
  from letItSnow_effect [OF half al, of 0 1 2]
  obtain st1 where
    c1: "letItSnow 0 ?h 1 2 st = Some st1" and k1: "kept st st1"
    and out1: "\<forall>j. \<not> (0 \<le> j \<and> j < ?h) \<longrightarrow> snow_list st1 ! j = snow_list st ! j"
    and in1: "\<forall>i. 0 \<le> i \<and> i < ?h \<longrightarrow> (\<exists>g g'. rng_src g = rng_src (rand st) \<and>
        recycle (drift (?w 1) 2 (snow_list st ! i)) g = Some (snow_list st1 ! i, g'))"
    by blast
  have al1: "aligned st1" using k1 al by (rule kept_aligned)
  have h1: "snow_half st1 = ?h" and n1: "length (snow_list st1) = ?n"
    and s1: "rng_src (rand st1) = rng_src (rand st)"
    using k1 by (simp_all add: kept_def)
  have o1: "override_due st1 = override_due st" using k1 by (rule kept_override)
  from letItSnow_effect [OF order_refl al1, of "snow_half st1" 4 4]
  obtain st2 where
    c2: "letItSnow ?h ?n 4 4 st1 = Some st2" and k2: "kept st1 st2"
    and out2: "\<forall>j. \<not> (?h \<le> j \<and> j < ?n) \<longrightarrow> snow_list st2 ! j = snow_list st1 ! j"
    and in2: "\<forall>i. ?h \<le> i \<and> i < ?n \<longrightarrow> (\<exists>g g'. rng_src g = rng_src (rand st) \<and>
        recycle (drift (?w 4) 4 (snow_list st1 ! i)) g = Some (snow_list st2 ! i, g'))"
    unfolding h1 n1 s1 o1 by blast
  have run: "snow_ranges st = Some st2"
    using c1 c2 by (simp add: snow_ranges_def h1 n1)
  have k: "kept st st2" using k1 k2 by (rule kept_trans)
  have each: "\<exists>g g'. rng_src g = rng_src (rand st) \<and>
        recycle (drift (if override_due st then 100 else if i < ?h then 1 else 4)
                       (if i < ?h then 2 else 4) (snow_list st ! i)) g
          = Some (snow_list st2 ! i, g')" if i: "i < ?n" for i
  proof (cases "i < ?h")
    case True
    then have "snow_list st2 ! i = snow_list st1 ! i" using out2 by simp
    with in1 True show ?thesis by (cases "override_due st") auto
  next
    case False
    then have same: "snow_list st1 ! i = snow_list st ! i" using out1 by simp
    from in2 False i obtain g g' where "rng_src g = rng_src (rand st)"
      and "recycle (drift (?w 4) 4 (snow_list st1 ! i)) g = Some (snow_list st2 ! i, g')"
      by (meson not_less)
    then show ?thesis using False same by (cases "override_due st") auto
  qed
  show ?thesis using run k each by blast
qed

lemma prepared_lists:
  "snow_list (prepared q t st) = snow_list st"
  "size_list (prepared q t st) = size_list st"
  "color_list (prepared q t st) = color_list st"
  "snow_half (prepared q t st) = snow_half st"
  "rand (prepared q t st) = rand st"
  by (simp_all add: prepared_def tick_timer_def fill_screen_def poll_events_def Let_def)

lemma prepared_timer:
  "time_passed (prepared q t st) = t"
  "time_since (prepared q t st) =
     (if t - time_since st \<ge> 10000 then time_since st + 10000 else time_since st)"
  "num_changed (prepared q t st) =
     (if t - time_since st \<ge> 10000 then num_changed st + 1 else num_changed st)"
  "done_flag (prepared q t st) = (q \<or> done_flag st)"
  by (simp_all add: prepared_def tick_timer_def fill_screen_def poll_events_def Let_def)

lemma frame_effect:
  assumes al: "aligned st" and half: "snow_half st \<le> length (snow_list st)"
  shows "\<exists>st'.
     frame q t st = Some st' \<and> kept (prepared q t st) st' \<and>
     (\<forall>i. i < length (snow_list st) \<longrightarrow> (\<exists>g g'. rng_src g = rng_src (rand st) \<and>
        recycle (drift (if override_due (prepared q t st) then 100
                        else if i < snow_half st then 1 else 4)
                       (if i < snow_half st then 2 else 4) (snow_list st ! i)) g
          = Some (snow_list st' ! i, g')))"
proof -
  let ?p = "prepared q t st"
  have a: "aligned ?p"
    using al by (simp add: aligned_def prepared_lists)
  have h: "snow_half ?p \<le> length (snow_list ?p)"
    using half by (simp add: prepared_lists)
  have f: "frame q t st = snow_ranges ?p"
    by (simp add: frame_def prepared_def)
  show ?thesis
    using snow_ranges_effect [OF a h] unfolding f prepared_lists .
qed

subsection \<open>Start-up\<close>

lemma init_one_eq:
  "init_one c st =
     Some (st\<lparr>size_list := size_list st @ [flake_size (rng_src (rand st)) (rng_pos (rand st)) 0],
              snow_list := snow_list st @ [flake_point (rng_src (rand st)) (rng_pos (rand st)) 0],
              color_list := color_list st @ [flake_colour (rng_src (rand st)) (rng_pos (rand st)) 0],
              rand := (rand st)\<lparr>rng_pos := rng_pos (rand st) + 4\<rparr>\<rparr>)"
proof -
  have n: "p + 3 = Suc (Suc (Suc p))" "p + 4 = Suc (Suc (Suc (Suc p)))" for p :: nat
    by simp_all
  show ?thesis
    by (simp add: init_one_def createColour_def randint_def randrange_def width_def height_def
        flake_size_def flake_point_def flake_colour_def Let_def n)
qed

lemma init_loop_eq:
  "init_loop cs st =
     Some (st\<lparr>size_list := size_list st @
                  map (flake_size (rng_src (rand st)) (rng_pos (rand st))) [0..<length cs],
              snow_list := snow_list st @
                  map (flake_point (rng_src (rand st)) (rng_pos (rand st))) [0..<length cs],
              color_list := color_list st @
                  map (flake_colour (rng_src (rand st)) (rng_pos (rand st))) [0..<length cs],
              rand := (rand st)\<lparr>rng_pos := rng_pos (rand st) + 4 * length cs\<rparr>\<rparr>)"
proof (induction cs arbitrary: st)
  case Nil
  then show ?case by simp
next
  case (Cons c cs)
  have sh: "flake_size raw (p + 4) k = flake_size raw p (Suc k)"
    "flake_point raw (p + 4) k = flake_point raw p (Suc k)"
    "flake_colour raw (p + 4) k = flake_colour raw p (Suc k)" for raw p k
    by (simp_all add: flake_size_def flake_point_def flake_colour_def add.assoc)
  show ?case
    by (simp add: init_one_eq Cons.IH sh map_upt_Suc del: upt_Suc)
qed

lemma init_state_eq:
  "init_state raw =
     Some \<lparr>snow_list = map (flake_point raw 0) [0..<flakes_amount],
           size_list = map (flake_size raw 0) [0..<flakes_amount],
           color_list = map (flake_colour raw 0) [0..<flakes_amount],
           snow_half = flakes_amount div 2,
           time_passed = 0, time_since = 0, num_changed = 0, done_flag = False,
           screen = [], rand = \<lparr>rng_src = raw, rng_pos = 4 * flakes_amount\<rparr>\<rparr>"
  by (simp add: init_state_def init_loop_eq globals0_def)

subsection \<open>Runs\<close>

lemma init_state_well_formed:
  "init_state raw = Some st \<Longrightarrow> well_formed st"
  by (auto simp: init_state_eq well_formed_def aligned_def)

lemma well_formed_frame:
  assumes "well_formed st"
  shows "\<exists>st'. frame q t st = Some st' \<and> kept (prepared q t st) st' \<and> well_formed st'"
proof -
  from assms have al: "aligned st" and half: "snow_half st \<le> length (snow_list st)"
    by (simp_all add: well_formed_def flakes_amount_def)
  from frame_effect [OF al half, of q t]
  obtain st' where f: "frame q t st = Some st'" and k: "kept (prepared q t st) st'"
    by blast
  have "well_formed st'"
    using assms k
    by (simp add: well_formed_def kept_def aligned_def prepared_lists prepared_timer)
  with f k show ?thesis by blast
qed

lemma run_append:
  "run (fs @ gs) st = run fs st \<bind> run gs"
proof (induction fs arbitrary: st)
  case Nil
  then show ?case by simp
next
  case (Cons f fs)
  obtain q t where f: "f = (q, t)" by (cases f)
  show ?case
  proof (cases "done_flag st")
    case True
    then show ?thesis
      unfolding f by (cases gs) auto
  next
    case False
    then show ?thesis
      unfolding f by (cases "frame q t st") (simp_all add: Cons.IH)
  qed
qed

lemma well_formed_run:
  assumes "well_formed st"
  shows "\<exists>st'. run fs st = Some st' \<and> well_formed st' \<and>
     size_list st' = size_list st \<and> color_list st' = color_list st \<and>
     rng_src (rand st') = rng_src (rand st) \<and>
     time_since st \<le> time_since st' \<and> num_changed st \<le> num_changed st'"
  using assms
proof (induction fs arbitrary: st)
  case Nil
  then show ?case by simp
next
  case (Cons f fs)
  obtain q t where f: "f = (q, t)" by (cases f)
  show ?case
  proof (cases "done_flag st")
    case True
    then show ?thesis using Cons.prems by (simp add: f)
  next
    case False
    from well_formed_frame [OF Cons.prems, of q t]
    obtain st1 where f1: "frame q t st = Some st1" and k: "kept (prepared q t st) st1"
      and w1: "well_formed st1" by blast
    from Cons.IH [OF w1] obtain st' where r: "run fs st1 = Some st'" and w': "well_formed st'"
      and keep: "size_list st' = size_list st1" "color_list st' = color_list st1"
        "rng_src (rand st') = rng_src (rand st1)"
      and mono: "time_since st1 \<le> time_since st'" "num_changed st1 \<le> num_changed st'"
      by blast
    have "run (f # fs) st = Some st'"
      using False f1 r by (simp add: f)
    moreover have "size_list st1 = size_list st" "color_list st1 = color_list st"
      "rng_src (rand st1) = rng_src (rand st)"
      "time_since st \<le> time_since st1" "num_changed st \<le> num_changed st1"
      using k by (simp_all add: kept_def prepared_lists prepared_timer)
    ultimately show ?thesis using w' keep mono by simp
  qed
qed

lemma run_clock:
  assumes "well_formed st" and "time_since st \<le> time_passed st"
    and "sorted (time_passed st # map snd fs)" and "run fs st = Some st'"
  shows "time_since st' \<le> time_passed st'"
  using assms
proof (induction fs arbitrary: st)
  case Nil
  then show ?case by simp
next
  case (Cons f fs)
  obtain q t where f: "f = (q, t)" by (cases f)
  show ?case
  proof (cases "done_flag st")
    case True
    then show ?thesis using Cons.prems by (simp add: f)
  next
    case False
    from well_formed_frame [OF Cons.prems(1), of q t]
    obtain st1 where f1: "frame q t st = Some st1" and k: "kept (prepared q t st) st1"
      and w1: "well_formed st1" by blast
    have le: "time_passed st \<le> t" and srt: "sorted (t # map snd fs)"
      using Cons.prems(3) by (simp_all add: f)
    have tp: "time_passed st1 = t"
      using k by (simp add: kept_def prepared_timer)
    have ts: "time_since st1 \<le> t"
      using k le Cons.prems(2) by (simp add: kept_def prepared_timer)
    have r: "run fs st1 = Some st'"
      using Cons.prems(4) False f1 by (simp add: f)
    show ?thesis
      using Cons.IH [OF w1 _ _ r] ts tp srt by simp
  qed
qed

lemma program_append:
  "program raw (fs @ gs) = program raw fs \<bind> run gs"
  by (simp add: program_def run_append init_state_eq)

lemma program_well_formed:
  "\<exists>st. program raw fs = Some st \<and> well_formed st \<and>
     size_list st = map (flake_size raw 0) [0..<flakes_amount] \<and>
     color_list st = map (flake_colour raw 0) [0..<flakes_amount] \<and>
     rng_src (rand st) = raw"
proof -
  obtain st0 where i: "init_state raw = Some st0"
    by (simp add: init_state_eq)
  then have w: "well_formed st0" by (rule init_state_well_formed)
  from well_formed_run [OF w, of fs] i show ?thesis
    by (auto simp: program_def init_state_eq)
qed

lemma program_clock:
  assumes "sorted (0 # map snd fs)" and "program raw fs = Some st"
  shows "time_since st \<le> time_passed st"
proof -
  obtain st0 where i: "init_state raw = Some st0"
    by (simp add: init_state_eq)
  then have w: "well_formed st0" by (rule init_state_well_formed)
  have z: "time_since st0 = 0" "time_passed st0 = 0"
    using i by (auto simp: init_state_eq)
  have r: "run fs st0 = Some st"
    using assms(2) i by (simp add: program_def)
  show ?thesis
    using run_clock [OF w _ _ r] z assms(1) by simp
qed

lemma prepared_override: "override_due (prepared q t st) = override_due st"
  by (simp add: override_due_def prepared_timer)

lemma well_formed_not_due: "well_formed st \<Longrightarrow> \<not> override_due st"
  by (simp add: well_formed_def override_due_def)

lemma recycle_cases:
  assumes "recycle p g = Some (p', g')"
  shows "if snd p > height + 3
         then 0 \<le> fst p' \<and> fst p' < width - 50 \<and> - 50 \<le> snd p' \<and> snd p' < - 10
         else if fst p > width + 3
         then - 50 \<le> fst p' \<and> fst p' < - 10 \<and> 0 \<le> snd p' \<and> snd p' < height - 50
         else p' = p"
proof (cases "snd p > height + 3")
  case True
  with assms show ?thesis
    by (auto simp: recycle_def recycle_vertical_fire recycle_horizontal_skip width_def)
next
  case v: False
  show ?thesis
  proof (cases "fst p > width + 3")
    case True
    with assms v show ?thesis
      by (auto simp: recycle_def recycle_vertical_skip recycle_horizontal_fire height_def)
  next
    case False
    with assms v show ?thesis
      by (simp add: recycle_def recycle_vertical_skip recycle_horizontal_skip)
  qed
qed

lemma recycle_on_screen:
  assumes "recycle p g = Some (p', g')"
  shows "fst p' \<le> width + 3 \<and> snd p' \<le> height + 3"
  using recycle_cases [OF assms]
  by (auto simp: width_def height_def split: if_splits)

lemma program_step:
  obtains st st' where "program raw fs = Some st" and "well_formed st"
    and "rng_src (rand st) = raw" and "program raw (fs @ [(q, t)]) = Some st'"
    and "done_flag st \<Longrightarrow> st' = st"
    and "\<not> done_flag st \<Longrightarrow> frame q t st = Some st'"
    and "\<not> done_flag st \<Longrightarrow> kept (prepared q t st) st'"
    and "\<And>i. \<not> done_flag st \<Longrightarrow> i < flakes_amount div 2 \<Longrightarrow>
           \<exists>g g'. rng_src g = raw \<and>
             recycle (drift 1 2 (snow_list st ! i)) g = Some (snow_list st' ! i, g')"
    and "\<And>i. \<not> done_flag st \<Longrightarrow> flakes_amount div 2 \<le> i \<Longrightarrow> i < flakes_amount \<Longrightarrow>
           \<exists>g g'. rng_src g = raw \<and>
             recycle (drift 4 4 (snow_list st ! i)) g = Some (snow_list st' ! i, g')"
proof -
  from program_well_formed [of raw fs]
  obtain st where p: "program raw fs = Some st" and w: "well_formed st"
    and src: "rng_src (rand st) = raw" by blast
  show ?thesis
  proof (cases "done_flag st")
    case True
    then have "program raw (fs @ [(q, t)]) = Some st"
      using p by (simp add: program_append)
    with p w src True show ?thesis by (intro that [of st st]) simp_all
  next
    case False
    from w have al: "aligned st" and half: "snow_half st \<le> length (snow_list st)"
      and n: "length (snow_list st) = flakes_amount" and h: "snow_half st = flakes_amount div 2"
      by (simp_all add: well_formed_def flakes_amount_def)
    have nd: "\<not> override_due (prepared q t st)"
      using w by (simp add: prepared_override well_formed_not_due)
    from frame_effect [OF al half, of q t]
    obtain st' where f: "frame q t st = Some st'" and k: "kept (prepared q t st) st'"
      and each: "\<forall>i. i < length (snow_list st) \<longrightarrow> (\<exists>g g'. rng_src g = rng_src (rand st) \<and>
        recycle (drift (if override_due (prepared q t st) then 100
                        else if i < snow_half st then 1 else 4)
                       (if i < snow_half st then 2 else 4) (snow_list st ! i)) g
          = Some (snow_list st' ! i, g'))"
      by blast
    have p': "program raw (fs @ [(q, t)]) = Some st'"
      using p False f by (simp add: program_append)
    have lo: "\<exists>g g'. rng_src g = raw \<and>
             recycle (drift 1 2 (snow_list st ! i)) g = Some (snow_list st' ! i, g')"
      if "i < flakes_amount div 2" for i
    proof -
      from that have "i < length (snow_list st)" by (simp add: n)
      with each have "\<exists>g g'. rng_src g = rng_src (rand st) \<and>
        recycle (drift (if override_due (prepared q t st) then 100
                        else if i < snow_half st then 1 else 4)
                       (if i < snow_half st then 2 else 4) (snow_list st ! i)) g
          = Some (snow_list st' ! i, g')" by blast
      then show ?thesis using that nd by (simp add: h src)
    qed
    have hi: "\<exists>g g'. rng_src g = raw \<and>
             recycle (drift 4 4 (snow_list st ! i)) g = Some (snow_list st' ! i, g')"
      if "flakes_amount div 2 \<le> i" and "i < flakes_amount" for i
    proof -
      from that have "i < length (snow_list st)" by (simp add: n)
      with each have "\<exists>g g'. rng_src g = rng_src (rand st) \<and>
        recycle (drift (if override_due (prepared q t st) then 100
                        else if i < snow_half st then 1 else 4)
                       (if i < snow_half st then 2 else 4) (snow_list st ! i)) g
          = Some (snow_list st' ! i, g')" by blast
      then show ?thesis using that nd by (simp add: h src)
    qed
    show ?thesis
      using p w src p' False f k lo hi by (intro that [of st st']) simp_all
  qed
qed

lemma init_positions:
  assumes "init_state raw = Some st" and "i < flakes_amount"
  shows "snow_list st ! i = flake_point raw 0 i"
    and "size_list st ! i = flake_size raw 0 i"
    and "color_list st ! i = flake_colour raw 0 i"
  using assms by (auto simp: init_state_eq)

lemma program_on_screen:
  assumes "i < flakes_amount"
  shows "\<exists>st. program raw fs = Some st \<and>
     fst (snow_list st ! i) \<le> width + 3 \<and> snd (snow_list st ! i) \<le> height + 3"
proof (induction fs rule: rev_induct)
  case Nil
  have "fst (flake_point raw 0 i) \<le> width + 3 \<and> snd (flake_point raw 0 i) \<le> height + 3"
    by (simp add: flake_point_def width_def height_def) linarith
  then show ?case using assms
    by (simp add: program_def init_state_eq)
next
  case (snoc f fs)
  obtain q t where f: "f = (q, t)" by (cases f)
  from snoc obtain st0 where p0: "program raw fs = Some st0"
    and b0: "fst (snow_list st0 ! i) \<le> width + 3 \<and> snd (snow_list st0 ! i) \<le> height + 3"
    by blast
  obtain st st' where p: "program raw fs = Some st"
    and p': "program raw (fs @ [(q, t)]) = Some st'"
    and stay: "done_flag st \<Longrightarrow> st' = st"
    and lo: "\<And>i. \<not> done_flag st \<Longrightarrow> i < flakes_amount div 2 \<Longrightarrow>
           \<exists>g g'. rng_src g = raw \<and>
             recycle (drift 1 2 (snow_list st ! i)) g = Some (snow_list st' ! i, g')"
    and hi: "\<And>i. \<not> done_flag st \<Longrightarrow> flakes_amount div 2 \<le> i \<Longrightarrow> i < flakes_amount \<Longrightarrow>
           \<exists>g g'. rng_src g = raw \<and>
             recycle (drift 4 4 (snow_list st ! i)) g = Some (snow_list st' ! i, g')"
    by (rule program_step [of raw fs q t]) blast
  have same: "st = st0" using p p0 by simp
  show ?case
  proof (cases "done_flag st")
    case True
    with stay p' b0 same show ?thesis by (simp add: f)
  next
    case False
    have "\<exists>p g g'. recycle p g = Some (snow_list st' ! i, g')"
    proof (cases "i < flakes_amount div 2")
      case True
      from lo [OF False True] show ?thesis by blast
    next
      case h: False
      then have "flakes_amount div 2 \<le> i" by simp
      from hi [OF False this assms] show ?thesis by blast
    qed
    then obtain p g g' where "recycle p g = Some (snow_list st' ! i, g')" by blast
    from recycle_on_screen [OF this] p' show ?thesis by (simp add: f)
  qed
qed

lemma program_start:
  assumes "program raw [] = Some st"
  shows "time_passed st = 0" and "time_since st = 0" and "num_changed st = 0"
    and "\<not> done_flag st"
  using assms by (auto simp: program_def init_state_eq)

lemma program_timer:
  obtains st st' where "program raw fs = Some st"
    and "program raw (fs @ [(q, t)]) = Some st'"
    and "done_flag st \<Longrightarrow> st' = st"
    and "\<not> done_flag st \<Longrightarrow> time_passed st' = t"
    and "\<not> done_flag st \<Longrightarrow> time_since st' =
           (if t - time_since st \<ge> 10000 then time_since st + 10000 else time_since st)"
    and "\<not> done_flag st \<Longrightarrow> num_changed st' =
           (if t - time_since st \<ge> 10000 then num_changed st + 1 else num_changed st)"
    and "\<not> done_flag st \<Longrightarrow> done_flag st' = q"
proof -
  obtain st st' where p: "program raw fs = Some st"
    and p': "program raw (fs @ [(q, t)]) = Some st'"
    and stay: "done_flag st \<Longrightarrow> st' = st"
    and k: "\<not> done_flag st \<Longrightarrow> kept (prepared q t st) st'"
    by (rule program_step [of raw fs q t]) blast
  show ?thesis
  proof (rule that [OF p p' stay])
    assume "\<not> done_flag st"
    then show "time_passed st' = t"
      using k by (simp add: kept_def prepared_timer)
  next
    assume "\<not> done_flag st"
    then show "time_since st' =
           (if t - time_since st \<ge> 10000 then time_since st + 10000 else time_since st)"
      using k by (simp add: kept_def prepared_timer)
  next
    assume "\<not> done_flag st"
    then show "num_changed st' =
           (if t - time_since st \<ge> 10000 then num_changed st + 1 else num_changed st)"
      using k by (simp add: kept_def prepared_timer)
  next
    assume "\<not> done_flag st"
    then show "done_flag st' = q"
      using k by (simp add: kept_def prepared_timer)
  qed
qed

lemma first_frame:
  "\<exists>st. program raw [(q, t)] = Some st \<and> time_passed st = t \<and>
     time_since st = (if t \<ge> 10000 then 10000 else 0) \<and>
     num_changed st = (if t \<ge> 10000 then 1 else 0) \<and> done_flag st = q"
proof -
  obtain st st' where p: "program raw [] = Some st"
    and p': "program raw ([] @ [(q, t)]) = Some st'"
    and tp: "\<not> done_flag st \<Longrightarrow> time_passed st' = t"
    and ts: "\<not> done_flag st \<Longrightarrow> time_since st' =
           (if t - time_since st \<ge> 10000 then time_since st + 10000 else time_since st)"
    and nc: "\<not> done_flag st \<Longrightarrow> num_changed st' =
           (if t - time_since st \<ge> 10000 then num_changed st + 1 else num_changed st)"
    and d: "\<not> done_flag st \<Longrightarrow> done_flag st' = q"
    by (rule program_timer [of raw "[]" q t]) blast
  from program_start [OF p] tp ts nc d p' show ?thesis by simp
qed

lemma recycle_none:
  "\<not> snd p > height + 3 \<Longrightarrow> \<not> fst p > width + 3 \<Longrightarrow> recycle p g = Some (p, g)"
  by (simp add: recycle_def recycle_vertical_skip recycle_horizontal_skip)

lemma recycle_none_result:
  assumes "recycle p g = Some (p', g')" and "\<not> snd p > height + 3" and "\<not> fst p > width + 3"
  shows "p' = p"
  using assms by (simp add: recycle_none)

lemma program_lists:
  obtains st0 st where "init_state raw = Some st0" and "program raw fs = Some st"
    and "well_formed st" and "size_list st = size_list st0" and "color_list st = color_list st0"
proof -
  obtain st0 where i: "init_state raw = Some st0" by (simp add: init_state_eq)
  from program_well_formed [of raw fs]
  obtain st where p: "program raw fs = Some st" and w: "well_formed st"
    and s: "size_list st = map (flake_size raw 0) [0..<flakes_amount]"
    and c: "color_list st = map (flake_colour raw 0) [0..<flakes_amount]" by blast
  have "size_list st = size_list st0" "color_list st = color_list st0"
    using i s c by (auto simp: init_state_eq)
  with i p w show ?thesis by (rule that)
qed

lemma flake_ranges:
  "2 \<le> flake_size raw p k" "flake_size raw p k \<le> 4"
  "0 \<le> fst (flake_point raw p k)" "fst (flake_point raw p k) \<le> width"
  "0 \<le> snd (flake_point raw p k)" "snd (flake_point raw p k) \<le> height"
proof -
  have "raw (p + 4 * k) mod 3 < 3" "raw (p + 4 * k + 1) mod 701 < 701"
    "raw (p + 4 * k + 2) mod 501 < 501"
    by simp_all
  then show "2 \<le> flake_size raw p k" "flake_size raw p k \<le> 4"
    "0 \<le> fst (flake_point raw p k)" "fst (flake_point raw p k) \<le> width"
    "0 \<le> snd (flake_point raw p k)" "snd (flake_point raw p k) \<le> height"
    by (simp_all add: flake_size_def flake_point_def width_def height_def)
qed

lemma flake_colour_range:
  "\<exists>h. flake_colour raw p k = (h, h, h) \<and> 30 \<le> h \<and> h \<le> 255"
proof -
  have "raw (p + 4 * k + 3) mod 226 < 226" by simp
  then show ?thesis by (simp add: flake_colour_def Let_def)
qed

lemma flake_raw_reaches:
  assumes "2 \<le> r0" and "r0 \<le> 4" and "0 \<le> x0" and "x0 \<le> width" and "0 \<le> y0" and "y0 \<le> height"
    and "30 \<le> h0" and "h0 \<le> 255"
  shows "flake_size (flake_raw i (nat (r0 - 2)) (nat x0) (nat y0) (nat (h0 - 30))) 0 i = r0"
    and "flake_point (flake_raw i (nat (r0 - 2)) (nat x0) (nat y0) (nat (h0 - 30))) 0 i = (x0, y0)"
    and "flake_colour (flake_raw i (nat (r0 - 2)) (nat x0) (nat y0) (nat (h0 - 30))) 0 i
           = (h0, h0, h0)"
  using assms
  by (simp_all add: flake_size_def flake_point_def flake_colour_def flake_raw_def Let_def
      width_def height_def)

lemma recycle_split:
  assumes "recycle p g = Some (p', g')"
  obtains p1 g1 where "recycle_vertical p g = Some (p1, g1)"
    and "recycle_horizontal p1 g1 = Some (p', g')"
  using assms by (auto simp: recycle_def split: Option.bind_splits)

lemma recycle_vertical_range:
  "\<exists>x y g'. 0 \<le> x \<and> x < width - 50 \<and> - 50 \<le> y \<and> y < - 10 \<and>
     recycle_vertical p g = Some (if snd p > height + 3 then (x, y) else p, g')"
proof (cases "snd p > height + 3")
  case True
  have "rng_src g (rng_pos g + 1) mod 650 < 650" "rng_src g (rng_pos g) mod 40 < 40"
    by simp_all
  then have "0 \<le> int (rng_src g (rng_pos g + 1) mod 650) \<and>
     int (rng_src g (rng_pos g + 1) mod 650) < width - 50 \<and>
     - 50 \<le> - 50 + int (rng_src g (rng_pos g) mod 40) \<and>
     - 50 + int (rng_src g (rng_pos g) mod 40) < - 10"
    by (simp add: width_def)
  then show ?thesis
    using True recycle_vertical_fire [OF True, of g] by (simp only: if_True) blast
next
  case False
  have "(0::int) \<le> 0 \<and> (0::int) < width - 50 \<and> - 50 \<le> (- 50 :: int) \<and> (- 50 :: int) < - 10"
    by (simp add: width_def)
  then show ?thesis
    using False recycle_vertical_skip [OF False, of g] by (simp only: if_False) blast
qed

lemma recycle_horizontal_range:
  "\<exists>x y g'. - 50 \<le> x \<and> x < - 10 \<and> 0 \<le> y \<and> y < height - 50 \<and>
     recycle_horizontal p g = Some (if fst p > width + 3 then (x, y) else p, g')"
proof (cases "fst p > width + 3")
  case True
  have "rng_src g (rng_pos g + 1) mod 40 < 40" "rng_src g (rng_pos g) mod 450 < 450"
    by simp_all
  then have "- 50 \<le> - 50 + int (rng_src g (rng_pos g + 1) mod 40) \<and>
     - 50 + int (rng_src g (rng_pos g + 1) mod 40) < - 10 \<and>
     0 \<le> int (rng_src g (rng_pos g) mod 450) \<and>
     int (rng_src g (rng_pos g) mod 450) < height - 50"
    by (simp add: height_def)
  then show ?thesis
    using True recycle_horizontal_fire [OF True, of g] by (simp only: if_True) blast
next
  case False
  have "- 50 \<le> (- 50 :: int) \<and> (- 50 :: int) < - 10 \<and> (0::int) \<le> 0 \<and> (0::int) < height - 50"
    by (simp add: height_def)
  then show ?thesis
    using False recycle_horizontal_skip [OF False, of g] by (simp only: if_False) blast
qed

lemma recycle_vertical_reaches:
  assumes "0 \<le> x" and "x < width - 50" and "- 50 \<le> y" and "y < - 10"
  shows "recycle_vertical (c, height + 4) \<lparr>rng_src = pick_raw 0 (nat (y + 50)) (nat x), rng_pos = 0\<rparr>
     = Some ((x, y), \<lparr>rng_src = pick_raw 0 (nat (y + 50)) (nat x), rng_pos = 2\<rparr>)"
  using assms by (simp add: recycle_vertical_fire pick_raw_def width_def)

lemma recycle_horizontal_reaches:
  assumes "- 50 \<le> x" and "x < - 10" and "0 \<le> y" and "y < height - 50"
  shows "recycle_horizontal (width + 4, c) \<lparr>rng_src = pick_raw 0 (nat y) (nat (x + 50)), rng_pos = 0\<rparr>
     = Some ((x, y), \<lparr>rng_src = pick_raw 0 (nat y) (nat (x + 50)), rng_pos = 2\<rparr>)"
  using assms by (simp add: recycle_horizontal_fire pick_raw_def height_def)

lemma program_particle:
  assumes "i < flakes_amount"
  obtains st st' where "program raw fs = Some st" and "program raw (fs @ [(q, t)]) = Some st'"
    and "done_flag st \<Longrightarrow> st' = st"
    and "\<not> done_flag st \<Longrightarrow> \<exists>g g'. rng_src g = raw \<and>
        recycle (drift (if i < flakes_amount div 2 then 1 else 4)
                       (if i < flakes_amount div 2 then 2 else 4) (snow_list st ! i)) g
          = Some (snow_list st' ! i, g')"
proof -
  obtain st st' where p: "program raw fs = Some st"
    and p': "program raw (fs @ [(q, t)]) = Some st'"
    and stay: "done_flag st \<Longrightarrow> st' = st"
    and lo: "\<And>i. \<not> done_flag st \<Longrightarrow> i < flakes_amount div 2 \<Longrightarrow>
           \<exists>g g'. rng_src g = raw \<and>
             recycle (drift 1 2 (snow_list st ! i)) g = Some (snow_list st' ! i, g')"
    and hi: "\<And>i. \<not> done_flag st \<Longrightarrow> flakes_amount div 2 \<le> i \<Longrightarrow> i < flakes_amount \<Longrightarrow>
           \<exists>g g'. rng_src g = raw \<and>
             recycle (drift 4 4 (snow_list st ! i)) g = Some (snow_list st' ! i, g')"
    by (rule program_step [of raw fs q t]) blast
  have "\<exists>g g'. rng_src g = raw \<and>
        recycle (drift (if i < flakes_amount div 2 then 1 else 4)
                       (if i < flakes_amount div 2 then 2 else 4) (snow_list st ! i)) g
          = Some (snow_list st' ! i, g')" if nd: "\<not> done_flag st"
  proof (cases "i < flakes_amount div 2")
    case True
    with lo [OF nd True] show ?thesis by simp
  next
    case False
    with hi [OF nd _ assms, of ] show ?thesis by simp
  qed
  with p p' stay show ?thesis by (rule that)
qed

lemma recycle_once:
  "\<exists>p1 g1 p2 g2. recycle_vertical p g = Some (p1, g1) \<and>
     recycle_horizontal p1 g1 = Some (p2, g2) \<and> recycle p g = Some (p2, g2) \<and>
     (p1 = p \<or> p2 = p1) \<and> rng_pos g2 \<le> rng_pos g + 2 \<and>
     (if snd p > height + 3
      then 0 \<le> fst p1 \<and> fst p1 < width - 50 \<and> fst p1 < width + 3 \<and>
           - 50 \<le> snd p1 \<and> snd p1 < - 10 \<and> p2 = p1 \<and> g2 = g1
      else p1 = p \<and> g1 = g \<and>
           (if fst p > width + 3
            then - 50 \<le> fst p2 \<and> fst p2 < - 10 \<and> 0 \<le> snd p2 \<and> snd p2 < height - 50
            else p2 = p))"
proof (cases "snd p > height + 3")
  case True
  let ?p1 = "(int (rng_src g (rng_pos g + 1) mod 650), - 50 + int (rng_src g (rng_pos g) mod 40))"
  let ?g1 = "g\<lparr>rng_pos := rng_pos g + 2\<rparr>"
  have v: "recycle_vertical p g = Some (?p1, ?g1)"
    using True by (rule recycle_vertical_fire)
  have m: "rng_src g (rng_pos g + 1) mod 650 < 650" "rng_src g (rng_pos g) mod 40 < 40"
    by simp_all
  have b: "0 \<le> fst ?p1" "fst ?p1 < width - 50" "fst ?p1 < width + 3"
    "- 50 \<le> snd ?p1" "snd ?p1 < - 10"
    using m by (simp_all add: width_def)
  have h: "recycle_horizontal ?p1 ?g1 = Some (?p1, ?g1)"
    using b(3) by (intro recycle_horizontal_skip) simp
  have r: "recycle p g = Some (?p1, ?g1)"
    using v h by (simp add: recycle_def)
  show ?thesis
    using True v h r b by (intro exI [of _ ?p1] exI [of _ ?g1]) (simp only: if_True, simp)
next
  case nv: False
  have v: "recycle_vertical p g = Some (p, g)"
    using nv by (rule recycle_vertical_skip)
  show ?thesis
  proof (cases "fst p > width + 3")
    case True
    let ?p2 = "(- 50 + int (rng_src g (rng_pos g + 1) mod 40), int (rng_src g (rng_pos g) mod 450))"
    let ?g2 = "g\<lparr>rng_pos := rng_pos g + 2\<rparr>"
    have h: "recycle_horizontal p g = Some (?p2, ?g2)"
      using True by (rule recycle_horizontal_fire)
    have m: "rng_src g (rng_pos g + 1) mod 40 < 40" "rng_src g (rng_pos g) mod 450 < 450"
      by simp_all
    have b: "- 50 \<le> fst ?p2" "fst ?p2 < - 10" "0 \<le> snd ?p2" "snd ?p2 < height - 50"
      using m by (simp_all add: height_def)
    have r: "recycle p g = Some (?p2, ?g2)"
      using v h by (simp add: recycle_def)
    show ?thesis
      using nv True v h r b
      by (intro exI [of _ p] exI [of _ g] exI [of _ ?p2] exI [of _ ?g2])
        (simp only: if_True if_False, simp)
  next
    case False
    have h: "recycle_horizontal p g = Some (p, g)"
      using False by (rule recycle_horizontal_skip)
    have r: "recycle p g = Some (p, g)"
      using v h by (simp add: recycle_def)
    show ?thesis
      using nv False v h r
      by (intro exI [of _ p] exI [of _ g]) (simp only: if_False, simp)
  qed
qed

section \<open>The claims\<close>

subsection \<open>C1\<close>

text \<open>
  C1 asks for a horizontal drift of 100 once the elapsed time exceeds
  10000 * (1 + \<open>num_changed\<close>). The code at such an input: in the run whose raw draws are
  all 700 and whose first frame reads the clock at 25000, the counter becomes 1, the
  elapsed time 25000 exceeds 10000 * (1 + 1), and particle 0 goes from (700, 199) to
  (701, 201): one across, not a hundred. The guard of line 61 compares \<open>time_since\<close>
  with 10000 + 10000 * \<open>num_changed\<close>, and lines 102 to 104 keep \<open>time_since\<close> at
  10000 * \<open>num_changed\<close>, so the assignment of line 62 is never reached.
\<close>

theorem override_not_applied:
  "map_option time_passed (program (const_raw 700) [(False, 25000)]) = Some 25000 \<and>
   map_option num_changed (program (const_raw 700) [(False, 25000)]) = Some 1 \<and>
   (25000 :: int) > 10000 * (1 + 1) \<and>
   (program (const_raw 700) [] \<bind> position_of 0) = Some (700, 199) \<and>
   (program (const_raw 700) [(False, 25000)] \<bind> position_of 0) = Some (701, 201) \<and>
   (701, 201) \<noteq> (700 + 100 :: int, 199 + 2 :: int)"
proof -
  let ?raw = "const_raw 700"
  have i: "(0::nat) < flakes_amount" by (simp add: flakes_amount_def)
  obtain st st' where p: "program ?raw [] = Some st" and w: "well_formed st"
    and p': "program ?raw ([] @ [(False, 25000)]) = Some st'"
    and k: "\<not> done_flag st \<Longrightarrow> kept (prepared False 25000 st) st'"
    and lo: "\<And>i. \<not> done_flag st \<Longrightarrow> i < flakes_amount div 2 \<Longrightarrow>
           \<exists>g g'. rng_src g = ?raw \<and>
             recycle (drift 1 2 (snow_list st ! i)) g = Some (snow_list st' ! i, g')"
    by (rule program_step [of ?raw "[]" False 25000]) blast
  have nd: "\<not> done_flag st" using p by (rule program_start)
  have z: "time_since st = 0" "num_changed st = 0" using p by (rule program_start)+
  have tp: "time_passed st' = 25000" and nc: "num_changed st' = 1"
    and n': "length (snow_list st') = flakes_amount"
    using k [OF nd] z w by (simp_all add: kept_def prepared_timer prepared_lists well_formed_def)
  have n: "length (snow_list st) = flakes_amount" using w by (simp add: well_formed_def)
  have "init_state ?raw = Some st" using p by (simp add: program_def)
  from init_positions(1) [OF this i]
  have at0: "snow_list st ! 0 = (700, 199)"
    by (simp add: flake_point_def const_raw_def)
  from lo [OF nd, of 0] obtain g g' where
    "recycle (drift 1 2 (700, 199)) g = Some (snow_list st' ! 0, g')"
    by (auto simp: at0 flakes_amount_def)
  then have "snow_list st' ! 0 = drift 1 2 (700, 199)"
    by (rule recycle_none_result) (simp_all add: drift_def width_def height_def)
  then have at1: "snow_list st' ! 0 = (701, 201)" by (simp add: drift_def)
  show ?thesis
    using p p' tp nc at0 at1 n n' i by (simp add: position_of_def get_item_def)
qed

subsection \<open>C2\<close>

text \<open>
  C2: in the globals as they are after lines 93 to 104 of any frame of any run,
  \<open>time_since\<close> is 10000 times \<open>num_changed\<close>, so the guard of line 61 is false. It stays
  false through both calls of \<open>letItSnow\<close>, which hand back their \<open>x_wind\<close> as they got
  it, 1 and 4, and each particle is moved by 1 across in the first half of the list and
  by 4 in the second half before the recycling checks.
\<close>

theorem override_never_due:
  assumes "i < flakes_amount"
  shows "\<exists>st st1 st'. program raw fs = Some st \<and>
     time_since (prepared q t st) = 10000 * num_changed (prepared q t st) \<and>
     \<not> override_due (prepared q t st) \<and>
     letItSnow_loop [0..<snow_half (prepared q t st)] 1 2 (prepared q t st) = Some (1, st1) \<and>
     \<not> override_due st1 \<and>
     letItSnow_loop [snow_half st1..<length (snow_list st1)] 4 4 st1 = Some (4, st') \<and>
     \<not> override_due st' \<and>
     frame q t st = Some st' \<and>
     time_since st' = 10000 * num_changed st' \<and>
     (\<exists>g g'. rng_src g = raw \<and>
        recycle (drift (if i < flakes_amount div 2 then 1 else 4)
                       (if i < flakes_amount div 2 then 2 else 4) (snow_list st ! i)) g
          = Some (snow_list st' ! i, g'))"
proof -
  let ?p = "prepared q t st"
  from program_well_formed [of raw fs]
  obtain st where p: "program raw fs = Some st" and w: "well_formed st"
    and src: "rng_src (rand st) = raw" by blast
  let ?p = "prepared q t st"
  have wp: "well_formed ?p"
    using w by (simp add: well_formed_def aligned_def prepared_lists prepared_timer)
  then have inv: "time_since ?p = 10000 * num_changed ?p"
    and al: "aligned ?p" and n: "length (snow_list ?p) = flakes_amount"
    and h: "snow_half ?p = flakes_amount div 2"
    by (simp_all add: well_formed_def)
  have nd: "\<not> override_due ?p" using wp by (rule well_formed_not_due)
  have "\<forall>j\<in>set [0..<snow_half ?p]. j < length (snow_list ?p)"
    by (simp add: n h flakes_amount_def)
  from letItSnow_loop_effect [OF this distinct_upt al, of 1 2] nd
  obtain st1 where l1: "letItSnow_loop [0..<snow_half ?p] 1 2 ?p = Some (1, st1)"
    and k1: "kept ?p st1" by auto
  have nd1: "\<not> override_due st1" using nd kept_override [OF k1] by simp
  have al1: "aligned st1" using k1 al by (rule kept_aligned)
  have "\<forall>j\<in>set [snow_half st1..<length (snow_list st1)]. j < length (snow_list st1)"
    by simp
  from letItSnow_loop_effect [OF this distinct_upt al1, of 4 4] nd1
  obtain st' where l2: "letItSnow_loop [snow_half st1..<length (snow_list st1)] 4 4 st1 = Some (4, st')"
    and k2: "kept st1 st'" by auto
  have nd': "\<not> override_due st'" using nd1 kept_override [OF k2] by simp
  have f: "frame q t st = Some st'"
    using l1 l2 by (simp add: frame_def snow_ranges_def letItSnow_def flip: prepared_def)
  have inv': "time_since st' = 10000 * num_changed st'"
    using inv k1 k2 by (simp add: kept_def)
  from w have al0: "aligned st" and half0: "snow_half st \<le> length (snow_list st)"
    and n0: "length (snow_list st) = flakes_amount" and h0: "snow_half st = flakes_amount div 2"
    by (simp_all add: well_formed_def flakes_amount_def)
  from frame_effect [OF al0 half0, of q t] f
  have "\<forall>i. i < length (snow_list st) \<longrightarrow> (\<exists>g g'. rng_src g = rng_src (rand st) \<and>
        recycle (drift (if override_due ?p then 100 else if i < snow_half st then 1 else 4)
                       (if i < snow_half st then 2 else 4) (snow_list st ! i)) g
          = Some (snow_list st' ! i, g'))"
    by auto
  with assms have "\<exists>g g'. rng_src g = rng_src (rand st) \<and>
        recycle (drift (if override_due ?p then 100 else if i < snow_half st then 1 else 4)
                       (if i < snow_half st then 2 else 4) (snow_list st ! i)) g
          = Some (snow_list st' ! i, g')"
    by (simp add: n0)
  then have pos: "\<exists>g g'. rng_src g = raw \<and>
        recycle (drift (if i < flakes_amount div 2 then 1 else 4)
                       (if i < flakes_amount div 2 then 2 else 4) (snow_list st ! i)) g
          = Some (snow_list st' ! i, g')"
    using nd by (simp add: h0 src)
  show ?thesis
    using p inv nd l1 nd1 l2 nd' f inv' pos by blast
qed

theorem override_never_due_witness:
  "(150::nat) < flakes_amount \<and>
   (\<exists>st st1 st'. program (const_raw 0) [(False, 25000)] = Some st \<and>
     time_since (prepared False 25042 st) = 10000 * num_changed (prepared False 25042 st) \<and>
     \<not> override_due (prepared False 25042 st) \<and>
     letItSnow_loop [0..<snow_half (prepared False 25042 st)] 1 2 (prepared False 25042 st)
       = Some (1, st1) \<and>
     \<not> override_due st1 \<and>
     letItSnow_loop [snow_half st1..<length (snow_list st1)] 4 4 st1 = Some (4, st') \<and>
     \<not> override_due st' \<and>
     frame False 25042 st = Some st' \<and>
     time_since st' = 10000 * num_changed st' \<and>
     (\<exists>g g'. rng_src g = const_raw 0 \<and>
        recycle (drift 4 4 (snow_list st ! 150)) g = Some (snow_list st' ! 150, g')))"
  using override_never_due [of 150 "const_raw 0" "[(False, 25000)]" False 25042]
  by (simp add: flakes_amount_def)

subsection \<open>C3\<close>

text \<open>
  C3: after any frames of any run, \<open>time_since\<close> is a multiple of 10000 and is at least
  what it was after fewer frames. It is at most \<open>time_passed\<close> when the clock readings of
  the run are never negative and never decrease, which is what \<open>pygame.time.get_ticks\<close>
  returns, counting from 0 at start-up. The run itself always yields a state.
\<close>

theorem time_since_invariant:
  "\<exists>st st'. program raw fs = Some st \<and> program raw (fs @ gs) = Some st' \<and>
     time_since st \<le> time_since st' \<and> 10000 dvd time_since st' \<and>
     (sorted (0 # map snd (fs @ gs)) \<longrightarrow> time_since st' \<le> time_passed st')"
proof -
  from program_well_formed [of raw fs]
  obtain st where p: "program raw fs = Some st" and w: "well_formed st" by blast
  from well_formed_run [OF w, of gs]
  obtain st' where r: "run gs st = Some st'" and w': "well_formed st'"
    and mono: "time_since st \<le> time_since st'" by blast
  have p': "program raw (fs @ gs) = Some st'"
    using p r by (simp add: program_append)
  have "time_since st' = 10000 * num_changed st'"
    using w' by (simp add: well_formed_def)
  then have d: "10000 dvd time_since st'" by simp
  have c: "sorted (0 # map snd (fs @ gs)) \<longrightarrow> time_since st' \<le> time_passed st'"
    using program_clock [OF _ p'] by blast
  from p p' mono d c show ?thesis by blast
qed

theorem time_since_invariant_witness:
  "sorted (0 # map snd ([(False, 9999 :: int)] @ [(False, 10001), (True, 20500)])) \<and>
   (\<exists>st st'. program (const_raw 0) [(False, 9999)] = Some st \<and>
      program (const_raw 0) ([(False, 9999)] @ [(False, 10001), (True, 20500)]) = Some st' \<and>
      time_since st \<le> time_since st' \<and> 10000 dvd time_since st' \<and>
      time_since st' \<le> time_passed st')"
proof -
  have c: "sorted (0 # map snd ([(False, 9999 :: int)] @ [(False, 10001), (True, 20500)]))"
    by simp
  from time_since_invariant [of "const_raw 0" "[(False, 9999)]" "[(False, 10001), (True, 20500)]"]
  obtain st st' where "program (const_raw 0) [(False, 9999)] = Some st"
    "program (const_raw 0) ([(False, 9999)] @ [(False, 10001), (True, 20500)]) = Some st'"
    "time_since st \<le> time_since st'" "10000 dvd time_since st'"
    "sorted (0 # map snd ([(False, 9999 :: int)] @ [(False, 10001), (True, 20500)]))
       \<longrightarrow> time_since st' \<le> time_passed st'"
    by blast
  with c show ?thesis by blast
qed

subsection \<open>C4\<close>

text \<open>
  C4: with the start time 0, a first frame at the clock reading 9999 leaves \<open>time_since\<close>
  and \<open>num_changed\<close> at 0 and 0; a first frame at the reading 10001 makes them 10000 and
  1; and so does a frame at 10001 that follows a frame at 9999.
\<close>

theorem timer_scenario:
  "\<exists>st1 st2 st3.
     program raw [(q1, 9999)] = Some st1 \<and> time_since st1 = 0 \<and> num_changed st1 = 0 \<and>
     program raw [(q2, 10001)] = Some st2 \<and> time_since st2 = 10000 \<and> num_changed st2 = 1 \<and>
     program raw [(False, 9999), (q3, 10001)] = Some st3 \<and>
     time_since st3 = 10000 \<and> num_changed st3 = 1"
proof -
  from first_frame [of raw q1 9999]
  obtain st1 where a: "program raw [(q1, 9999)] = Some st1" "time_since st1 = 0"
    "num_changed st1 = 0" by auto
  from first_frame [of raw q2 10001]
  obtain st2 where b: "program raw [(q2, 10001)] = Some st2" "time_since st2 = 10000"
    "num_changed st2 = 1" by auto
  from first_frame [of raw False 9999]
  obtain s where s: "program raw [(False, 9999)] = Some s" "time_since s = 0"
    "num_changed s = 0" "\<not> done_flag s" by auto
  obtain st st3 where p: "program raw [(False, 9999)] = Some st"
    and p3: "program raw ([(False, 9999)] @ [(q3, 10001)]) = Some st3"
    and ts: "\<not> done_flag st \<Longrightarrow> time_since st3 =
           (if 10001 - time_since st \<ge> 10000 then time_since st + 10000 else time_since st)"
    and nc: "\<not> done_flag st \<Longrightarrow> num_changed st3 =
           (if 10001 - time_since st \<ge> 10000 then num_changed st + 1 else num_changed st)"
    by (rule program_timer [of raw "[(False, 9999)]" q3 10001]) blast
  have "st = s" using p s(1) by simp
  then have c: "program raw [(False, 9999), (q3, 10001)] = Some st3" "time_since st3 = 10000"
    "num_changed st3 = 1"
    using p3 ts nc s by simp_all
  from a b c show ?thesis by blast
qed

subsection \<open>C5\<close>

text \<open>
  C5: a frame raises \<open>num_changed\<close> by at most 1, whatever the clock reads: the counter
  after the frame is the counter before it or that plus 1. A first frame at the reading
  50000, five intervals late, counts one change only.
\<close>

theorem one_increment_per_frame:
  "\<exists>st st' late.
     program raw fs = Some st \<and> program raw (fs @ [(q, t)]) = Some st' \<and>
     (num_changed st' = num_changed st \<or> num_changed st' = num_changed st + 1) \<and>
     program raw [(q, 50000)] = Some late \<and> num_changed late = 1 \<and> time_since late = 10000"
proof -
  obtain st st' where p: "program raw fs = Some st"
    and p': "program raw (fs @ [(q, t)]) = Some st'"
    and stay: "done_flag st \<Longrightarrow> st' = st"
    and nc: "\<not> done_flag st \<Longrightarrow> num_changed st' =
           (if t - time_since st \<ge> 10000 then num_changed st + 1 else num_changed st)"
    by (rule program_timer [of raw fs q t]) blast
  have "num_changed st' = num_changed st \<or> num_changed st' = num_changed st + 1"
    using stay nc by (cases "done_flag st") auto
  moreover from first_frame [of raw q 50000]
  obtain late where "program raw [(q, 50000)] = Some late" "num_changed late = 1"
    "time_since late = 10000" by auto
  ultimately show ?thesis using p p' by blast
qed

subsection \<open>C6\<close>

text \<open>
  C6: after the drift is added, the check of line 78 resets a particle whose \<open>y\<close> exceeds
  \<open>height\<close> + 3 to a \<open>y\<close> of -50, ..., -11 and an \<open>x\<close> of 0, ..., \<open>width\<close> - 51, and leaves any
  other particle as it is; the check of line 84 resets a particle whose \<open>x\<close> exceeds
  \<open>width\<close> + 3 to an \<open>x\<close> of -50, ..., -11 and a \<open>y\<close> of 0, ..., \<open>height\<close> - 51, and leaves
  any other as it is. Every value of these ranges is drawn for some random source. In
  a frame each particle goes through both checks, the second on what the first has left.
  The distribution of the draws is the random module's and is not part of the embedding.
\<close>

theorem recycle_checks:
  assumes "i < flakes_amount"
    and "0 \<le> xv" and "xv < width - 50" and "- 50 \<le> yv" and "yv < - 10"
    and "- 50 \<le> xh" and "xh < - 10" and "0 \<le> yh" and "yh < height - 50"
  shows "(\<exists>x y g'. 0 \<le> x \<and> x < width - 50 \<and> - 50 \<le> y \<and> y < - 10 \<and>
       recycle_vertical p g = Some (if snd p > height + 3 then (x, y) else p, g')) \<and>
     (\<exists>x y g'. - 50 \<le> x \<and> x < - 10 \<and> 0 \<le> y \<and> y < height - 50 \<and>
       recycle_horizontal p g = Some (if fst p > width + 3 then (x, y) else p, g')) \<and>
     (\<exists>g g'. recycle_vertical (c, height + 4) g = Some ((xv, yv), g')) \<and>
     (\<exists>g g'. recycle_horizontal (width + 4, c) g = Some ((xh, yh), g')) \<and>
     (\<exists>st st'. program raw fs = Some st \<and> program raw (fs @ [(q, t)]) = Some st' \<and>
       (if done_flag st then st' = st
        else \<exists>g0 p1 g1 g2. rng_src g0 = raw \<and>
          recycle_vertical (drift (if i < flakes_amount div 2 then 1 else 4)
                                  (if i < flakes_amount div 2 then 2 else 4)
                                  (snow_list st ! i)) g0 = Some (p1, g1) \<and>
          recycle_horizontal p1 g1 = Some (snow_list st' ! i, g2)))"
proof -
  obtain st st' where p: "program raw fs = Some st"
    and p': "program raw (fs @ [(q, t)]) = Some st'"
    and stay: "done_flag st \<Longrightarrow> st' = st"
    and move: "\<not> done_flag st \<Longrightarrow> \<exists>g g'. rng_src g = raw \<and>
        recycle (drift (if i < flakes_amount div 2 then 1 else 4)
                       (if i < flakes_amount div 2 then 2 else 4) (snow_list st ! i)) g
          = Some (snow_list st' ! i, g')"
    by (rule program_particle [OF assms(1), of raw fs q t]) blast
  have both: "if done_flag st then st' = st
        else \<exists>g0 p1 g1 g2. rng_src g0 = raw \<and>
          recycle_vertical (drift (if i < flakes_amount div 2 then 1 else 4)
                                  (if i < flakes_amount div 2 then 2 else 4)
                                  (snow_list st ! i)) g0 = Some (p1, g1) \<and>
          recycle_horizontal p1 g1 = Some (snow_list st' ! i, g2)"
  proof (cases "done_flag st")
    case True
    then show ?thesis using stay by simp
  next
    case False
    from move [OF False] obtain g g' where s: "rng_src g = raw"
      and r: "recycle (drift (if i < flakes_amount div 2 then 1 else 4)
                       (if i < flakes_amount div 2 then 2 else 4) (snow_list st ! i)) g
          = Some (snow_list st' ! i, g')" by blast
    from r obtain p1 g1 where
      "recycle_vertical (drift (if i < flakes_amount div 2 then 1 else 4)
                       (if i < flakes_amount div 2 then 2 else 4) (snow_list st ! i)) g
         = Some (p1, g1)"
      "recycle_horizontal p1 g1 = Some (snow_list st' ! i, g')"
      by (rule recycle_split)
    with s False show ?thesis by (simp only: if_False) blast
  qed
  have v: "\<exists>g g'. recycle_vertical (c, height + 4) g = Some ((xv, yv), g')"
    using recycle_vertical_reaches [OF assms(2-5)] by blast
  have h: "\<exists>g g'. recycle_horizontal (width + 4, c) g = Some ((xh, yh), g')"
    using recycle_horizontal_reaches [OF assms(6-9)] by blast
  from p p' both have run: "\<exists>st st'. program raw fs = Some st \<and>
       program raw (fs @ [(q, t)]) = Some st' \<and>
       (if done_flag st then st' = st
        else \<exists>g0 p1 g1 g2. rng_src g0 = raw \<and>
          recycle_vertical (drift (if i < flakes_amount div 2 then 1 else 4)
                                  (if i < flakes_amount div 2 then 2 else 4)
                                  (snow_list st ! i)) g0 = Some (p1, g1) \<and>
          recycle_horizontal p1 g1 = Some (snow_list st' ! i, g2))"
    by blast
  show ?thesis
    using recycle_vertical_range [of p g] recycle_horizontal_range [of p g] v h run
    by (intro conjI)
qed

theorem recycle_checks_witness:
  "(100::nat) < flakes_amount \<and>
   (0::int) \<le> 649 \<and> 649 < width - 50 \<and> - 50 \<le> (- 50 :: int) \<and> (- 50 :: int) < - 10 \<and>
   - 50 \<le> (- 11 :: int) \<and> (- 11 :: int) < - 10 \<and> (0::int) \<le> 449 \<and> 449 < height - 50 \<and>
   (\<exists>x y g'. 0 \<le> x \<and> x < width - 50 \<and> - 50 \<le> y \<and> y < - 10 \<and>
       recycle_vertical (704, 504) \<lparr>rng_src = const_raw 0, rng_pos = 0\<rparr>
         = Some (if snd (704 :: int, 504 :: int) > height + 3 then (x, y) else (704, 504), g')) \<and>
   (\<exists>x y g'. - 50 \<le> x \<and> x < - 10 \<and> 0 \<le> y \<and> y < height - 50 \<and>
       recycle_horizontal (704, 504) \<lparr>rng_src = const_raw 0, rng_pos = 0\<rparr>
         = Some (if fst (704 :: int, 504 :: int) > width + 3 then (x, y) else (704, 504), g')) \<and>
   (\<exists>g g'. recycle_vertical (0, height + 4) g = Some ((649, - 50), g')) \<and>
   (\<exists>g g'. recycle_horizontal (width + 4, 0) g = Some ((- 11, 449), g')) \<and>
   (\<exists>st st'. program (const_raw 700) [] = Some st \<and>
       program (const_raw 700) ([] @ [(False, 0)]) = Some st' \<and>
       (if done_flag st then st' = st
        else \<exists>g0 p1 g1 g2. rng_src g0 = const_raw 700 \<and>
          recycle_vertical (drift (if 100 < flakes_amount div 2 then 1 else 4)
                                  (if 100 < flakes_amount div 2 then 2 else 4)
                                  (snow_list st ! 100)) g0 = Some (p1, g1) \<and>
          recycle_horizontal p1 g1 = Some (snow_list st' ! 100, g2)))"
proof -
  have h: "(100::nat) < flakes_amount"
    "(0::int) \<le> 649" "649 < width - 50" "- 50 \<le> (- 50 :: int)" "(- 50 :: int) < - 10"
    "- 50 \<le> (- 11 :: int)" "(- 11 :: int) < - 10" "(0::int) \<le> 449" "449 < height - 50"
    by (simp_all add: flakes_amount_def width_def height_def)
  from recycle_checks [OF h, where p = "(704, 504)"
      and g = "\<lparr>rng_src = const_raw 0, rng_pos = 0\<rparr>" and c = 0
      and raw = "const_raw 700" and fs = "[]" and q = False and t = 0] h
  show ?thesis by (intro conjI) blast+
qed

subsection \<open>C7\<close>

text \<open>
  C7: in every state of every run each particle has \<open>x\<close> at most \<open>width\<close> + 3 and \<open>y\<close>
  at most \<open>height\<close> + 3. A frame that runs leaves a particle whose drifted \<open>y\<close> exceeds
  \<open>height\<close> + 3 at a \<open>y\<close> of -50, ..., -11; else one whose drifted \<open>x\<close> exceeds
  \<open>width\<close> + 3 at an \<open>x\<close> of -50, ..., -11; and any other at its drifted position. The
  conditions are strict: a particle at \<open>y\<close> = \<open>height\<close> + 3 or at \<open>x\<close> = \<open>width\<close> + 3 is
  left where it is, as are the particles drifted by (1, 2) from (698, 100) and from
  (701, 100).
\<close>

theorem stays_on_screen:
  assumes "i < flakes_amount"
  shows "(\<exists>st. program raw fs = Some st \<and>
       fst (snow_list st ! i) \<le> width + 3 \<and> snd (snow_list st ! i) \<le> height + 3) \<and>
     (\<exists>st st' d. program raw fs = Some st \<and> program raw (fs @ [(q, t)]) = Some st' \<and>
       d = drift (if i < flakes_amount div 2 then 1 else 4)
                 (if i < flakes_amount div 2 then 2 else 4) (snow_list st ! i) \<and>
       (if done_flag st then st' = st
        else if snd d > height + 3
        then - 50 \<le> snd (snow_list st' ! i) \<and> snd (snow_list st' ! i) < - 10 \<and>
             fst (snow_list st' ! i) \<le> width + 3
        else if fst d > width + 3
        then - 50 \<le> fst (snow_list st' ! i) \<and> fst (snow_list st' ! i) < - 10 \<and>
             snd (snow_list st' ! i) \<le> height + 3
        else snow_list st' ! i = d)) \<and>
     recycle_vertical (x, height + 3) g = Some ((x, height + 3), g) \<and>
     recycle_horizontal (width + 3, y) g = Some ((width + 3, y), g) \<and>
     recycle (width + 3, height + 3) g = Some ((width + 3, height + 3), g) \<and>
     recycle (drift 1 2 (698, 100)) g = Some ((699, 102), g) \<and>
     recycle (drift 1 2 (701, 100)) g = Some ((702, 102), g)"
proof -
  let ?d = "\<lambda>st. drift (if i < flakes_amount div 2 then 1 else 4)
                 (if i < flakes_amount div 2 then 2 else 4) (snow_list st ! i)"
  obtain st st' where p: "program raw fs = Some st"
    and p': "program raw (fs @ [(q, t)]) = Some st'"
    and stay: "done_flag st \<Longrightarrow> st' = st"
    and move: "\<not> done_flag st \<Longrightarrow> \<exists>g g'. rng_src g = raw \<and>
        recycle (?d st) g = Some (snow_list st' ! i, g')"
    by (rule program_particle [OF assms, of raw fs q t]) blast
  have cls: "if done_flag st then st' = st
        else if snd (?d st) > height + 3
        then - 50 \<le> snd (snow_list st' ! i) \<and> snd (snow_list st' ! i) < - 10 \<and>
             fst (snow_list st' ! i) \<le> width + 3
        else if fst (?d st) > width + 3
        then - 50 \<le> fst (snow_list st' ! i) \<and> fst (snow_list st' ! i) < - 10 \<and>
             snd (snow_list st' ! i) \<le> height + 3
        else snow_list st' ! i = ?d st"
  proof (cases "done_flag st")
    case True
    then show ?thesis using stay by simp
  next
    case False
    from move [OF False] obtain g0 g' where
      r: "recycle (?d st) g0 = Some (snow_list st' ! i, g')" by blast
    from recycle_cases [OF r] recycle_on_screen [OF r] False
    show ?thesis by (simp split: if_splits)
  qed
  have frame: "\<exists>st st' d. program raw fs = Some st \<and> program raw (fs @ [(q, t)]) = Some st' \<and>
       d = ?d st \<and>
       (if done_flag st then st' = st
        else if snd d > height + 3
        then - 50 \<le> snd (snow_list st' ! i) \<and> snd (snow_list st' ! i) < - 10 \<and>
             fst (snow_list st' ! i) \<le> width + 3
        else if fst d > width + 3
        then - 50 \<le> fst (snow_list st' ! i) \<and> fst (snow_list st' ! i) < - 10 \<and>
             snd (snow_list st' ! i) \<le> height + 3
        else snow_list st' ! i = d)"
    using p p' cls by blast
  have edge: "recycle_vertical (x, height + 3) g = Some ((x, height + 3), g)"
    "recycle_horizontal (width + 3, y) g = Some ((width + 3, y), g)"
    "recycle (width + 3, height + 3) g = Some ((width + 3, height + 3), g)"
    "recycle (drift 1 2 (698, 100)) g = Some ((699, 102), g)"
    "recycle (drift 1 2 (701, 100)) g = Some ((702, 102), g)"
    by (simp_all add: recycle_vertical_skip recycle_horizontal_skip recycle_none drift_def
        width_def height_def)
  show ?thesis
    using program_on_screen [OF assms, of raw fs] frame edge by (intro conjI)
qed

theorem stays_on_screen_witness:
  "(100::nat) < flakes_amount \<and>
   (\<exists>st. program (const_raw 700) [(False, 0)] = Some st \<and>
       fst (snow_list st ! 100) \<le> width + 3 \<and> snd (snow_list st ! 100) \<le> height + 3) \<and>
   recycle_vertical (0, height + 3) \<lparr>rng_src = const_raw 0, rng_pos = 0\<rparr>
     = Some ((0, height + 3), \<lparr>rng_src = const_raw 0, rng_pos = 0\<rparr>) \<and>
   recycle_horizontal (width + 3, 0) \<lparr>rng_src = const_raw 0, rng_pos = 0\<rparr>
     = Some ((width + 3, 0), \<lparr>rng_src = const_raw 0, rng_pos = 0\<rparr>)"
proof -
  have h: "(100::nat) < flakes_amount" by (simp add: flakes_amount_def)
  from stays_on_screen [OF h, where raw = "const_raw 700" and fs = "[(False, 0)]"
      and x = 0 and y = 0 and g = "\<lparr>rng_src = const_raw 0, rng_pos = 0\<rparr>"] h
  show ?thesis by (intro conjI) blast+
qed

subsection \<open>C8\<close>

text \<open>
  C8, as the code has it: \<open>randint\<close> includes both ends, so a start position is drawn
  from the closed box from (0, 0) to (\<open>width\<close>, \<open>height\<close>). Start-up makes 200 particles;
  each has a radius of 2, 3 or 4, a position in that box and a colour of three equal
  parts between 30 and 255. Every radius of 2, 3, 4, every point of the box, the corner
  (\<open>width\<close>, \<open>height\<close>) included, and every intensity of 30, ..., 255 is what start-up
  gives the particle for some random source. That is what the embedding states of a
  uniform draw; the distribution itself is the random module's.
\<close>

theorem initial_flakes:
  assumes "i < flakes_amount" and "2 \<le> r0" and "r0 \<le> 4"
    and "0 \<le> x0" and "x0 \<le> width" and "0 \<le> y0" and "y0 \<le> height"
    and "30 \<le> h0" and "h0 \<le> 255"
  shows "\<exists>st x y h. init_state raw = Some st \<and>
     length (snow_list st) = 200 \<and> length (size_list st) = 200 \<and>
     length (color_list st) = 200 \<and>
     size_list st ! i \<in> {2, 3, 4} \<and>
     snow_list st ! i = (x, y) \<and> 0 \<le> x \<and> x \<le> width \<and> 0 \<le> y \<and> y \<le> height \<and>
     color_list st ! i = (h, h, h) \<and> 30 \<le> h \<and> h \<le> 255 \<and>
     (\<exists>st'. init_state (flake_raw i (nat (r0 - 2)) (nat x0) (nat y0) (nat (h0 - 30))) = Some st' \<and>
        size_list st' ! i = r0 \<and> snow_list st' ! i = (x0, y0) \<and>
        color_list st' ! i = (h0, h0, h0))"
proof -
  obtain st where st: "init_state raw = Some st" by (simp add: init_state_eq)
  have len: "length (snow_list st) = 200" "length (size_list st) = 200"
    "length (color_list st) = 200"
    using st by (auto simp: init_state_eq flakes_amount_def)
  note at = init_positions [OF st assms(1)]
  have "2 \<le> size_list st ! i" "size_list st ! i \<le> 4"
    unfolding at by (rule flake_ranges)+
  then have sz: "size_list st ! i \<in> {2, 3, 4}" by auto
  obtain x y where xy: "snow_list st ! i = (x, y)" by (cases "snow_list st ! i")
  have "0 \<le> fst (snow_list st ! i)" "fst (snow_list st ! i) \<le> width"
    "0 \<le> snd (snow_list st ! i)" "snd (snow_list st ! i) \<le> height"
    unfolding at by (rule flake_ranges)+
  then have box: "0 \<le> x" "x \<le> width" "0 \<le> y" "y \<le> height"
    by (simp_all add: xy)
  from flake_colour_range [of raw 0 i]
  obtain h where col: "color_list st ! i = (h, h, h)" "30 \<le> h" "h \<le> 255"
    unfolding at by blast
  let ?raw = "flake_raw i (nat (r0 - 2)) (nat x0) (nat y0) (nat (h0 - 30))"
  obtain st' where st': "init_state ?raw = Some st'" by (simp add: init_state_eq)
  note at' = init_positions [OF st' assms(1)]
  note hit = flake_raw_reaches [OF assms(2-9), of i]
  have reach: "size_list st' ! i = r0" "snow_list st' ! i = (x0, y0)"
    "color_list st' ! i = (h0, h0, h0)"
    unfolding at' by (rule hit)+
  with st st' len sz xy box col show ?thesis by blast
qed

theorem initial_flakes_witness:
  "(7::nat) < flakes_amount \<and> (2::int) \<le> 4 \<and> (4::int) \<le> 4 \<and>
   (0::int) \<le> 700 \<and> 700 \<le> width \<and> (0::int) \<le> 500 \<and> 500 \<le> height \<and>
   (30::int) \<le> 255 \<and> (255::int) \<le> 255 \<and>
   (\<exists>st x y h. init_state (const_raw 700) = Some st \<and>
     length (snow_list st) = 200 \<and> length (size_list st) = 200 \<and>
     length (color_list st) = 200 \<and>
     size_list st ! 7 \<in> {2, 3, 4} \<and>
     snow_list st ! 7 = (x, y) \<and> 0 \<le> x \<and> x \<le> width \<and> 0 \<le> y \<and> y \<le> height \<and>
     color_list st ! 7 = (h, h, h) \<and> 30 \<le> h \<and> h \<le> 255 \<and>
     (\<exists>st'. init_state (flake_raw 7 (nat (4 - 2)) (nat 700) (nat 500) (nat (255 - 30))) = Some st' \<and>
        size_list st' ! 7 = 4 \<and> snow_list st' ! 7 = (700, 500) \<and>
        color_list st' ! 7 = (255, 255, 255)))"
proof -
  have h: "(7::nat) < flakes_amount" "(2::int) \<le> 4" "(4::int) \<le> 4"
    "(0::int) \<le> 700" "700 \<le> width" "(0::int) \<le> 500" "500 \<le> height"
    "(30::int) \<le> 255" "(255::int) \<le> 255"
    by (simp_all add: flakes_amount_def width_def height_def)
  from initial_flakes [OF h, of "const_raw 700"] h show ?thesis by blast
qed

text \<open>
  A start position outside the half-open box: with every raw draw 700, particle 0 starts
  at \<open>x\<close> = 700, which is not below \<open>width\<close>.
\<close>

theorem initial_flakes_counterexample:
  "(init_state (const_raw 700) \<bind> position_of 0) = Some (700, 199) \<and> \<not> (700 < width)"
  by (simp add: init_state_eq position_of_def get_item_def flakes_amount_def flake_point_def
      const_raw_def width_def)

subsection \<open>C9\<close>

text \<open>
  C9: \<open>size_list\<close> and \<open>color_list\<close> are, after any number of frames, the lists that
  start-up made. The first half of the particles is the indices below \<open>snow_half\<close>, which
  is 100. A frame that runs takes a particle of the first half from (\<open>x\<close>, \<open>y\<close>) to what
  the recycling checks make of (\<open>x\<close> + 1, \<open>y\<close> + 2), and a particle of the second half to
  what they make of (\<open>x\<close> + 4, \<open>y\<close> + 4): to that very point when it is no further than
  \<open>width\<close> + 3 across and \<open>height\<close> + 3 down, and to a reset position otherwise.
\<close>

theorem drift_by_group:
  assumes "i < flakes_amount"
  shows "\<exists>st0 st st' x y dx dy. init_state raw = Some st0 \<and> program raw fs = Some st \<and>
     program raw (fs @ [(q, t)]) = Some st' \<and>
     size_list st = size_list st0 \<and> color_list st = color_list st0 \<and>
     size_list st' = size_list st0 \<and> color_list st' = color_list st0 \<and>
     snow_half st = 100 \<and> length (snow_list st) = 200 \<and>
     snow_list st ! i = (x, y) \<and>
     (dx, dy) = (if i < snow_half st then (1, 2) else (4, 4)) \<and>
     drift dx dy (x, y) = (x + dx, y + dy) \<and>
     (if done_flag st then st' = st
      else (\<exists>g g'. rng_src g = raw \<and>
              recycle (x + dx, y + dy) g = Some (snow_list st' ! i, g')) \<and>
           (if y + dy > height + 3
            then 0 \<le> fst (snow_list st' ! i) \<and> fst (snow_list st' ! i) < width - 50 \<and>
                 - 50 \<le> snd (snow_list st' ! i) \<and> snd (snow_list st' ! i) < - 10
            else if x + dx > width + 3
            then - 50 \<le> fst (snow_list st' ! i) \<and> fst (snow_list st' ! i) < - 10 \<and>
                 0 \<le> snd (snow_list st' ! i) \<and> snd (snow_list st' ! i) < height - 50
            else snow_list st' ! i = (x + dx, y + dy)))"
proof -
  obtain st0 st where i0: "init_state raw = Some st0" and p: "program raw fs = Some st"
    and w: "well_formed st"
    and l: "size_list st = size_list st0" "color_list st = color_list st0"
    by (rule program_lists [of raw fs]) blast
  obtain st0' st' where i0': "init_state raw = Some st0'"
    and p': "program raw (fs @ [(q, t)]) = Some st'"
    and l': "size_list st' = size_list st0'" "color_list st' = color_list st0'"
    by (rule program_lists [of raw "fs @ [(q, t)]"]) blast
  have e: "st0' = st0" using i0 i0' by simp
  obtain s s' where ps: "program raw fs = Some s"
    and ps': "program raw (fs @ [(q, t)]) = Some s'"
    and stay: "done_flag s \<Longrightarrow> s' = s"
    and lo: "\<And>i. \<not> done_flag s \<Longrightarrow> i < flakes_amount div 2 \<Longrightarrow>
           \<exists>g g'. rng_src g = raw \<and>
             recycle (drift 1 2 (snow_list s ! i)) g = Some (snow_list s' ! i, g')"
    and hi: "\<And>i. \<not> done_flag s \<Longrightarrow> flakes_amount div 2 \<le> i \<Longrightarrow> i < flakes_amount \<Longrightarrow>
           \<exists>g g'. rng_src g = raw \<and>
             recycle (drift 4 4 (snow_list s ! i)) g = Some (snow_list s' ! i, g')"
    by (rule program_step [of raw fs q t]) blast
  have es: "s = st" "s' = st'" using p ps p' ps' by simp_all
  have shape: "snow_half st = 100" "length (snow_list st) = 200"
    using w by (simp_all add: well_formed_def flakes_amount_def)
  have half: "flakes_amount div 2 = 100" by (simp add: flakes_amount_def)
  obtain x y where xy: "snow_list st ! i = (x, y)" by (cases "snow_list st ! i")
  obtain dx dy :: int where d: "(dx, dy) = (if i < snow_half st then (1, 2) else (4, 4))"
    by (cases "i < snow_half st") auto
  have dr: "drift dx dy (x, y) = (x + dx, y + dy)" by (simp add: drift_def)
  have move: "(\<exists>g g'. rng_src g = raw \<and>
              recycle (x + dx, y + dy) g = Some (snow_list st' ! i, g')) \<and>
           (if y + dy > height + 3
            then 0 \<le> fst (snow_list st' ! i) \<and> fst (snow_list st' ! i) < width - 50 \<and>
                 - 50 \<le> snd (snow_list st' ! i) \<and> snd (snow_list st' ! i) < - 10
            else if x + dx > width + 3
            then - 50 \<le> fst (snow_list st' ! i) \<and> fst (snow_list st' ! i) < - 10 \<and>
                 0 \<le> snd (snow_list st' ! i) \<and> snd (snow_list st' ! i) < height - 50
            else snow_list st' ! i = (x + dx, y + dy))" if nd: "\<not> done_flag st"
  proof -
    have "\<exists>g g'. rng_src g = raw \<and>
        recycle (drift dx dy (snow_list st ! i)) g = Some (snow_list st' ! i, g')"
    proof (cases "i < snow_half st")
      case True
      then have "dx = 1" "dy = 2" using d by simp_all
      with lo [of i] nd es True shape half show ?thesis by simp
    next
      case False
      then have "dx = 4" "dy = 4" using d by simp_all
      with hi [of i] nd es False shape half assms show ?thesis by simp
    qed
    then obtain g g' where s: "rng_src g = raw"
      and r: "recycle (x + dx, y + dy) g = Some (snow_list st' ! i, g')"
      unfolding xy dr by blast
    have c: "if y + dy > height + 3
            then 0 \<le> fst (snow_list st' ! i) \<and> fst (snow_list st' ! i) < width - 50 \<and>
                 - 50 \<le> snd (snow_list st' ! i) \<and> snd (snow_list st' ! i) < - 10
            else if x + dx > width + 3
            then - 50 \<le> fst (snow_list st' ! i) \<and> fst (snow_list st' ! i) < - 10 \<and>
                 0 \<le> snd (snow_list st' ! i) \<and> snd (snow_list st' ! i) < height - 50
            else snow_list st' ! i = (x + dx, y + dy)"
      using recycle_cases [OF r] by (simp only: fst_conv snd_conv)
    have e: "\<exists>g g'. rng_src g = raw \<and>
              recycle (x + dx, y + dy) g = Some (snow_list st' ! i, g')"
      using s r by blast
    show ?thesis using e c by (rule conjI)
  qed
  have alt: "if done_flag st then st' = st
      else (\<exists>g g'. rng_src g = raw \<and>
              recycle (x + dx, y + dy) g = Some (snow_list st' ! i, g')) \<and>
           (if y + dy > height + 3
            then 0 \<le> fst (snow_list st' ! i) \<and> fst (snow_list st' ! i) < width - 50 \<and>
                 - 50 \<le> snd (snow_list st' ! i) \<and> snd (snow_list st' ! i) < - 10
            else if x + dx > width + 3
            then - 50 \<le> fst (snow_list st' ! i) \<and> fst (snow_list st' ! i) < - 10 \<and>
                 0 \<le> snd (snow_list st' ! i) \<and> snd (snow_list st' ! i) < height - 50
            else snow_list st' ! i = (x + dx, y + dy))"
  proof (cases "done_flag st")
    case True
    then show ?thesis using stay es by simp
  next
    case False
    from move [OF False] show ?thesis unfolding if_not_P [OF False] .
  qed
  show ?thesis
    using i0 p p' l l' [unfolded e] shape xy d dr alt
    by (intro exI [of _ st0] exI [of _ st] exI [of _ st'] exI [of _ x] exI [of _ y]
        exI [of _ dx] exI [of _ dy] conjI)
qed

theorem drift_by_group_witness:
  "(0::nat) < flakes_amount \<and> (150::nat) < flakes_amount \<and>
   (\<exists>st st'. program (const_raw 300) [] = Some st \<and>
      program (const_raw 300) [(False, 42)] = Some st' \<and>
      \<not> done_flag st \<and> size_list st' = size_list st \<and> color_list st' = color_list st \<and>
      snow_list st ! 0 = (300, 300) \<and> snow_list st' ! 0 = (301, 302) \<and>
      snow_list st ! 150 = (300, 300) \<and> snow_list st' ! 150 = (304, 304))"
proof -
  let ?raw = "const_raw 300"
  have h: "(0::nat) < flakes_amount" "(150::nat) < flakes_amount"
    by (simp_all add: flakes_amount_def)
  obtain st where p: "program ?raw [] = Some st"
    using program_well_formed [of ?raw "[]"] by blast
  obtain st' where p': "program ?raw [(False, 42)] = Some st'"
    using program_well_formed [of ?raw "[(False, 42)]"] by blast
  have nd: "\<not> done_flag st" using p by (rule program_start)
  have ini: "init_state ?raw = Some st" using p by (simp add: program_def)
  have start: "snow_list st ! i = (300, 300)" if "i < flakes_amount" for i
    using init_positions(1) [OF ini that] by (simp add: flake_point_def const_raw_def)
  have step: "size_list st' = size_list st \<and> color_list st' = color_list st \<and>
      snow_list st' ! i = (if i < 100 then (301, 302) else (304, 304))"
    if i: "i < flakes_amount" for i
  proof -
    from drift_by_group [OF i, of ?raw "[]" False 42]
    obtain a0 a a' x y dx dy where ia: "init_state ?raw = Some a0"
      and pa: "program ?raw [] = Some a"
      and pa': "program ?raw ([] @ [(False, 42)]) = Some a'"
      and la: "size_list a = size_list a0" "color_list a = color_list a0"
        "size_list a' = size_list a0" "color_list a' = color_list a0"
      and ha: "snow_half a = 100"
      and xy: "snow_list a ! i = (x, y)"
      and d: "(dx, dy) = (if i < snow_half a then (1, 2) else (4, 4))"
      and alt: "if done_flag a then a' = a
        else (\<exists>g g'. rng_src g = ?raw \<and>
                recycle (x + dx, y + dy) g = Some (snow_list a' ! i, g')) \<and>
             (if y + dy > height + 3
              then 0 \<le> fst (snow_list a' ! i) \<and> fst (snow_list a' ! i) < width - 50 \<and>
                   - 50 \<le> snd (snow_list a' ! i) \<and> snd (snow_list a' ! i) < - 10
              else if x + dx > width + 3
              then - 50 \<le> fst (snow_list a' ! i) \<and> fst (snow_list a' ! i) < - 10 \<and>
                   0 \<le> snd (snow_list a' ! i) \<and> snd (snow_list a' ! i) < height - 50
              else snow_list a' ! i = (x + dx, y + dy))"
      by (elim exE conjE) (rule that; assumption)
    have e: "a = st" "a' = st'" using p pa p' pa' by simp_all
    have x: "x = 300" and y: "y = 300"
      using xy start [OF i] unfolding e by simp_all
    have w: "(dx, dy) = (if i < 100 then (1, 2) else (4, 4))"
      using d unfolding ha .
    have small: "\<not> y + dy > height + 3" "\<not> x + dx > width + 3"
      using w by (auto simp: x y width_def height_def split: if_splits)
    from alt have "snow_list a' ! i = (x + dx, y + dy)"
      unfolding if_not_P [OF nd [folded e(1)]] if_not_P [OF small(1)] if_not_P [OF small(2)]
      by (rule conjunct2)
    then have "snow_list st' ! i = (if i < 100 then (301, 302) else (304, 304))"
      using w unfolding e by (auto simp: x y split: if_splits)
    with la show ?thesis unfolding e by simp
  qed
  from step [OF h(1)] step [OF h(2)] start [OF h(1)] start [OF h(2)] p p' nd h
  show ?thesis by simp
qed

subsection \<open>C10\<close>

text \<open>
  C10, as the code has it: at most one of the two checks changes a particle in a frame,
  and at most two values are drawn for it. When the check of line 78 resets the particle,
  the new \<open>x\<close> is one of 0, ..., \<open>width\<close> - 51, below \<open>width\<close> + 3, and the check of line 84
  leaves it as it is. When the check of line 84 resets the particle, the check of line
  78 has left it as it was, and the reset puts \<open>x\<close> at -50, ..., -11 and \<open>y\<close> at
  0, ..., \<open>height\<close> - 51.
\<close>

theorem one_recycle_per_particle:
  assumes "i < flakes_amount"
  shows "(\<exists>p1 g1 p2 g2. recycle_vertical p g = Some (p1, g1) \<and>
       recycle_horizontal p1 g1 = Some (p2, g2) \<and> recycle p g = Some (p2, g2) \<and>
       (p1 = p \<or> p2 = p1) \<and> rng_pos g2 \<le> rng_pos g + 2 \<and>
       (if snd p > height + 3
        then 0 \<le> fst p1 \<and> fst p1 < width - 50 \<and> fst p1 < width + 3 \<and>
             - 50 \<le> snd p1 \<and> snd p1 < - 10 \<and> p2 = p1 \<and> g2 = g1
        else p1 = p \<and> g1 = g \<and>
             (if fst p > width + 3
              then - 50 \<le> fst p2 \<and> fst p2 < - 10 \<and> 0 \<le> snd p2 \<and> snd p2 < height - 50
              else p2 = p))) \<and>
     (\<exists>st st' d. program raw fs = Some st \<and> program raw (fs @ [(q, t)]) = Some st' \<and>
       d = drift (if i < flakes_amount div 2 then 1 else 4)
                 (if i < flakes_amount div 2 then 2 else 4) (snow_list st ! i) \<and>
       (if done_flag st then st' = st
        else \<exists>g0 p1 g1 g2. rng_src g0 = raw \<and>
          recycle_vertical d g0 = Some (p1, g1) \<and>
          recycle_horizontal p1 g1 = Some (snow_list st' ! i, g2) \<and>
          (p1 = d \<or> snow_list st' ! i = p1) \<and> rng_pos g2 \<le> rng_pos g0 + 2))"
proof -
  let ?d = "\<lambda>st. drift (if i < flakes_amount div 2 then 1 else 4)
                 (if i < flakes_amount div 2 then 2 else 4) (snow_list st ! i)"
  obtain st st' where p: "program raw fs = Some st"
    and p': "program raw (fs @ [(q, t)]) = Some st'"
    and stay: "done_flag st \<Longrightarrow> st' = st"
    and move: "\<not> done_flag st \<Longrightarrow> \<exists>g g'. rng_src g = raw \<and>
        recycle (?d st) g = Some (snow_list st' ! i, g')"
    by (rule program_particle [OF assms, of raw fs q t]) blast
  have one: "if done_flag st then st' = st
        else \<exists>g0 p1 g1 g2. rng_src g0 = raw \<and>
          recycle_vertical (?d st) g0 = Some (p1, g1) \<and>
          recycle_horizontal p1 g1 = Some (snow_list st' ! i, g2) \<and>
          (p1 = ?d st \<or> snow_list st' ! i = p1) \<and> rng_pos g2 \<le> rng_pos g0 + 2"
  proof (cases "done_flag st")
    case True
    then show ?thesis using stay by simp
  next
    case False
    from move [OF False] obtain g0 g' where s: "rng_src g0 = raw"
      and r: "recycle (?d st) g0 = Some (snow_list st' ! i, g')" by blast
    from recycle_once [of "?d st" g0]
    obtain p1 g1 p2 g2 where v: "recycle_vertical (?d st) g0 = Some (p1, g1)"
      and h: "recycle_horizontal p1 g1 = Some (p2, g2)"
      and r2: "recycle (?d st) g0 = Some (p2, g2)"
      and o: "p1 = ?d st \<or> p2 = p1" and n: "rng_pos g2 \<le> rng_pos g0 + 2"
      by blast
    have e: "p2 = snow_list st' ! i" using r r2 by simp
    have "\<exists>g0 p1 g1 g2. rng_src g0 = raw \<and>
          recycle_vertical (?d st) g0 = Some (p1, g1) \<and>
          recycle_horizontal p1 g1 = Some (snow_list st' ! i, g2) \<and>
          (p1 = ?d st \<or> snow_list st' ! i = p1) \<and> rng_pos g2 \<le> rng_pos g0 + 2"
      using s v h o n unfolding e by blast
    with False show ?thesis by (simp only: if_False)
  qed
  have frame: "\<exists>st st' d. program raw fs = Some st \<and> program raw (fs @ [(q, t)]) = Some st' \<and>
       d = ?d st \<and>
       (if done_flag st then st' = st
        else \<exists>g0 p1 g1 g2. rng_src g0 = raw \<and>
          recycle_vertical d g0 = Some (p1, g1) \<and>
          recycle_horizontal p1 g1 = Some (snow_list st' ! i, g2) \<and>
          (p1 = d \<or> snow_list st' ! i = p1) \<and> rng_pos g2 \<le> rng_pos g0 + 2)"
    using p p' one by blast
  show ?thesis
    using recycle_once [of p g] frame by (intro conjI)
qed

theorem one_recycle_per_particle_witness:
  "(100::nat) < flakes_amount \<and>
   (\<exists>p1 g1 p2 g2.
       recycle_vertical (704, 504) \<lparr>rng_src = const_raw 700, rng_pos = 0\<rparr> = Some (p1, g1) \<and>
       recycle_horizontal p1 g1 = Some (p2, g2) \<and>
       recycle (704, 504) \<lparr>rng_src = const_raw 700, rng_pos = 0\<rparr> = Some (p2, g2) \<and>
       p2 = p1 \<and> rng_pos g2 \<le> 2) \<and>
   (\<exists>st st'. program (const_raw 700) [] = Some st \<and>
       program (const_raw 700) ([] @ [(False, 0)]) = Some st')"
proof -
  have h: "(100::nat) < flakes_amount" by (simp add: flakes_amount_def)
  have c: "(snd (704 :: int, 504 :: int) > height + 3) = True"
    by (simp add: height_def)
  note inst = one_recycle_per_particle [OF h, where p = "(704, 504)"
      and g = "\<lparr>rng_src = const_raw 700, rng_pos = 0\<rparr>"
      and raw = "const_raw 700" and fs = "[]" and q = False and t = 0, unfolded c if_True]
  from inst have a: "\<exists>p1 g1 p2 g2.
       recycle_vertical (704, 504) \<lparr>rng_src = const_raw 700, rng_pos = 0\<rparr> = Some (p1, g1) \<and>
       recycle_horizontal p1 g1 = Some (p2, g2) \<and>
       recycle (704, 504) \<lparr>rng_src = const_raw 700, rng_pos = 0\<rparr> = Some (p2, g2) \<and>
       p2 = p1 \<and> rng_pos g2 \<le> 2"
    by (elim conjE exE) (intro exI conjI, assumption+, simp)
  from inst have b: "\<exists>st st'. program (const_raw 700) [] = Some st \<and>
       program (const_raw 700) ([] @ [(False, 0)]) = Some st'"
    by blast
  from h a b show ?thesis by (intro conjI)
qed

text \<open>
  The \<open>y\<close> of a horizontal reset is not one of -50, ..., -11: with every raw draw 700,
  particle 100 starts at (700, 199), drifts to (704, 203) in the first frame and is reset
  by the check of line 84 to (-30, 250).
\<close>

theorem horizontal_reset_counterexample:
  "(program (const_raw 700) [] \<bind> position_of 100) = Some (700, 199) \<and>
   (program (const_raw 700) [(False, 0)] \<bind> position_of 100) = Some (- 30, 250) \<and>
   (704 :: int) > width + 3 \<and> \<not> (203 :: int) > height + 3 \<and>
   \<not> (- 50 \<le> (250 :: int) \<and> (250 :: int) < - 10)"
proof -
  let ?raw = "const_raw 700"
  have i: "(100::nat) < flakes_amount" "flakes_amount div 2 \<le> 100"
    by (simp_all add: flakes_amount_def)
  obtain st st' where p: "program ?raw [] = Some st" and w: "well_formed st"
    and p': "program ?raw ([] @ [(False, 0)]) = Some st'"
    and k: "\<not> done_flag st \<Longrightarrow> kept (prepared False 0 st) st'"
    and hi: "\<And>i. \<not> done_flag st \<Longrightarrow> flakes_amount div 2 \<le> i \<Longrightarrow> i < flakes_amount \<Longrightarrow>
           \<exists>g g'. rng_src g = ?raw \<and>
             recycle (drift 4 4 (snow_list st ! i)) g = Some (snow_list st' ! i, g')"
    by (rule program_step [of ?raw "[]" False 0]) blast
  have nd: "\<not> done_flag st" using p by (rule program_start)
  have n: "length (snow_list st) = flakes_amount" using w by (simp add: well_formed_def)
  have n': "length (snow_list st') = flakes_amount"
    using k [OF nd] n by (simp add: kept_def prepared_lists)
  have "init_state ?raw = Some st" using p by (simp add: program_def)
  from init_positions(1) [OF this i(1)]
  have at0: "snow_list st ! 100 = (700, 199)"
    by (simp add: flake_point_def const_raw_def)
  from hi [OF nd i(2) i(1)] obtain g g' where s: "rng_src g = ?raw"
    and r: "recycle (drift 4 4 (700, 199)) g = Some (snow_list st' ! 100, g')"
    by (auto simp: at0)
  have d: "drift 4 4 (700, 199) = (704, 203)" by (simp add: drift_def)
  have v: "recycle_vertical (704, 203) g = Some ((704, 203), g)"
    by (rule recycle_vertical_skip) (simp add: height_def)
  have h: "recycle_horizontal (704, 203) g = Some ((- 30, 250), g\<lparr>rng_pos := rng_pos g + 2\<rparr>)"
    by (simp add: recycle_horizontal_fire width_def s const_raw_def)
  have at1: "snow_list st' ! 100 = (- 30, 250)"
    using r v h by (simp add: d recycle_def)
  show ?thesis
    using p p' at0 at1 n n' i(1)
    by (simp add: position_of_def get_item_def width_def height_def)
qed

end
